theory Spec2Isabelle
  imports Complex_Main "HOL-Library.Product_Lexorder"
begin

section \<open>Text: characters and the string methods the extractor calls\<close>

text \<open>
  The extractor of \<^verbatim>\<open>src/app.py\<close> works on Python \<^verbatim>\<open>str\<close> values, sequences of code
  points. A text is modelled as a \<^typ>\<open>string\<close> whose characters are the code points
  0 to 255, so \<^term>\<open>length\<close> counts what Python's \<^verbatim>\<open>len\<close> counts. The character classes
  below are those of Python on that range: \<^verbatim>\<open>str.isspace\<close> (also \<^verbatim>\<open>\s\<close> and what
  \<^verbatim>\<open>str.strip\<close> removes), \<^verbatim>\<open>\d\<close>, \<^verbatim>\<open>str.isdigit\<close>, \<^verbatim>\<open>str.isalnum\<close>, \<^verbatim>\<open>str.isupper\<close>
  and \<^verbatim>\<open>str.lower\<close>.
\<close>

definition code :: "char \<Rightarrow> nat" where
  "code c = of_char c"

definition is_space :: "char \<Rightarrow> bool" where
  "is_space c = (let n = code c in
     (9 \<le> n \<and> n \<le> 13) \<or> (28 \<le> n \<and> n \<le> 32) \<or> n = 133 \<or> n = 160)"

definition is_decimal :: "char \<Rightarrow> bool" where
  "is_decimal c = (let n = code c in 48 \<le> n \<and> n \<le> 57)"

definition is_digit_char :: "char \<Rightarrow> bool" where
  "is_digit_char c = (let n = code c in (48 \<le> n \<and> n \<le> 57) \<or> n = 178 \<or> n = 179 \<or> n = 185)"

definition is_alpha_char :: "char \<Rightarrow> bool" where
  "is_alpha_char c = (let n = code c in
     (65 \<le> n \<and> n \<le> 90) \<or> (97 \<le> n \<and> n \<le> 122) \<or> n = 170 \<or> n = 181 \<or> n = 186 \<or>
     (192 \<le> n \<and> n \<le> 214) \<or> (216 \<le> n \<and> n \<le> 246) \<or> (248 \<le> n \<and> n \<le> 255))"

definition is_numeric_char :: "char \<Rightarrow> bool" where
  "is_numeric_char c = (let n = code c in is_digit_char c \<or> n = 188 \<or> n = 189 \<or> n = 190)"

definition isalnum :: "char \<Rightarrow> bool" where
  "isalnum c = (is_alpha_char c \<or> is_numeric_char c)"

definition isupper :: "char \<Rightarrow> bool" where
  "isupper c = (let n = code c in
     (65 \<le> n \<and> n \<le> 90) \<or> (192 \<le> n \<and> n \<le> 214) \<or> (216 \<le> n \<and> n \<le> 222))"

definition lower_char :: "char \<Rightarrow> char" where
  "lower_char c = (if isupper c then char_of (code c + 32) else c)"

definition lower :: "string \<Rightarrow> string" where
  "lower s = map lower_char s"

definition strip :: "string \<Rightarrow> string" where
  "strip s = rev (dropWhile is_space (rev (dropWhile is_space s)))"

text \<open>\<^verbatim>\<open>text.isdigit()\<close>: a non-empty string of digit characters.\<close>

definition isdigit :: "string \<Rightarrow> bool" where
  "isdigit s = (s \<noteq> [] \<and> list_all is_digit_char s)"

definition startswith :: "string \<Rightarrow> string \<Rightarrow> bool" where
  "startswith s pre = (take (length pre) s = pre)"

text \<open>\<^verbatim>\<open>sub in s\<close> on strings.\<close>

fun contains :: "string \<Rightarrow> string \<Rightarrow> bool" where
  "contains sub [] = (sub = [])"
| "contains sub (c # cs) = (startswith (c # cs) sub \<or> contains sub cs)"

definition newline :: char where
  "newline = CHR 0x0A"

text \<open>\<^verbatim>\<open>s.split('\n')\<close>: the pieces between line feeds, never an empty list.\<close>

fun split_nl :: "string \<Rightarrow> string list" where
  "split_nl [] = [[]]"
| "split_nl (c # cs) =
     (if c = newline then [] # split_nl cs
      else (case split_nl cs of [] \<Rightarrow> [[c]] | l # ls \<Rightarrow> (c # l) # ls))"

section \<open>Errors\<close>

text \<open>
  The exceptions the extractor's operations can raise: a list or string index out of range,
  \<^verbatim>\<open>int\<close> of a string that is not a number, and \<^verbatim>\<open>next\<close> on an exhausted generator.
\<close>

datatype error = IndexError | ValueError | StopIteration

definition bind_res :: "error + 'a \<Rightarrow> ('a \<Rightarrow> error + 'b) \<Rightarrow> error + 'b" where
  "bind_res m f = (case m of Inl e \<Rightarrow> Inl e | Inr v \<Rightarrow> f v)"

text \<open>Running the iterations of a loop in order: the first exception ends the loop.\<close>

fun collect :: "(error + 'a) list \<Rightarrow> error + 'a list" where
  "collect [] = Inr []"
| "collect (r # rs) =
     (case r of Inl e \<Rightarrow> Inl e
      | Inr v \<Rightarrow> (case collect rs of Inl e \<Rightarrow> Inl e | Inr vs \<Rightarrow> Inr (v # vs)))"

text \<open>\<^verbatim>\<open>xs[i]\<close> for an index that is not negative.\<close>

definition index :: "'a list \<Rightarrow> nat \<Rightarrow> error + 'a" where
  "index xs i = (if i < length xs then Inr (xs ! i) else Inl IndexError)"

text \<open>
  \<^verbatim>\<open>int(s)\<close> on a non-empty string of decimal digits; any other string is reported as
  \<^verbatim>\<open>ValueError\<close> (Python accepts a few more forms, none of which the extractor passes).
  Python's integers are unbounded, but the conversion from a decimal string is not: CPython
  raises \<^verbatim>\<open>ValueError\<close> for a string of more than \<^verbatim>\<open>sys.int_info.default_max_str_digits\<close>,
  that is 4300, digits; leading zeros count.
\<close>

definition int_max_str_digits :: nat where
  "int_max_str_digits = 4300"

definition digit_val :: "char \<Rightarrow> int" where
  "digit_val c = int (code c) - 48"

definition py_int :: "string \<Rightarrow> error + int" where
  "py_int s = (if s \<noteq> [] \<and> list_all is_decimal s \<and> length s \<le> int_max_str_digits
     then Inr (foldl (\<lambda>a c. 10 * a + digit_val c) 0 s) else Inl ValueError)"

section \<open>Regular expressions\<close>

text \<open>
  Every pattern of the source is a sequence of quantified character classes, some of them
  inside a capture group, optionally closed by \<^verbatim>\<open>$\<close>. An atom is a class, its quantifier
  and the number of the group it lies in (0 for none). Python's matcher backtracks: for
  each atom it tries the possible lengths in the quantifier's order of preference (greedy:
  longest first; lazy: shortest first) and takes the first choice for which the rest of
  the pattern matches.
\<close>

datatype quant = One | Opt | Star | Plus | LazyPlus | Exactly nat

type_synonym atom = "(char \<Rightarrow> bool) \<times> quant \<times> nat"

type_synonym pattern = "atom list \<times> bool"

text \<open>All ways to cut a prefix of class characters off a string, shortest prefix first.\<close>

fun runs :: "(char \<Rightarrow> bool) \<Rightarrow> string \<Rightarrow> (string \<times> string) list" where
  "runs p [] = [([], [])]"
| "runs p (c # cs) = ([], c # cs) # (if p c then map (\<lambda>(a, b). (c # a, b)) (runs p cs) else [])"

fun choices :: "quant \<Rightarrow> (char \<Rightarrow> bool) \<Rightarrow> string \<Rightarrow> (string \<times> string) list" where
  "choices One p s = filter (\<lambda>(a, b). length a = 1) (runs p s)"
| "choices Opt p s = rev (take 2 (runs p s))"
| "choices Star p s = rev (runs p s)"
| "choices Plus p s = rev (tl (runs p s))"
| "choices LazyPlus p s = tl (runs p s)"
| "choices (Exactly n) p s = filter (\<lambda>(a, b). length a = n) (runs p s)"

fun first_some :: "('a \<Rightarrow> 'b option) \<Rightarrow> 'a list \<Rightarrow> 'b option" where
  "first_some f [] = None"
| "first_some f (x # xs) = (case f x of Some y \<Rightarrow> Some y | None \<Rightarrow> first_some f xs)"

text \<open>\<^verbatim>\<open>$\<close> holds at the end of the string and before a line feed that ends it.\<close>

definition at_end :: "string \<Rightarrow> bool" where
  "at_end s = (s = [] \<or> s = [newline])"

text \<open>
  Matching at the start of the string; the result is the text each atom consumed.
\<close>

primrec rmatch :: "atom list \<Rightarrow> bool \<Rightarrow> string \<Rightarrow> string list option" where
  "rmatch [] dollar s = (if dollar \<and> \<not> at_end s then None else Some [])"
| "rmatch (a # as) dollar s =
     first_some (\<lambda>(x, y). map_option ((#) x) (rmatch as dollar y))
       (choices (fst (snd a)) (fst a) s)"

text \<open>\<^verbatim>\<open>re.match(pattern, s)\<close>.\<close>

definition re_match :: "pattern \<Rightarrow> string \<Rightarrow> string list option" where
  "re_match pat s = rmatch (fst pat) (snd pat) s"

text \<open>\<^verbatim>\<open>re.search(pattern, s)\<close>: the match at the leftmost position that has one.\<close>

fun re_search :: "pattern \<Rightarrow> string \<Rightarrow> string list option" where
  "re_search pat [] = re_match pat []"
| "re_search pat (c # cs) =
     (case re_match pat (c # cs) of Some m \<Rightarrow> Some m | None \<Rightarrow> re_search pat cs)"

text \<open>\<^verbatim>\<open>match.group(n)\<close>.\<close>

definition group :: "nat \<Rightarrow> pattern \<Rightarrow> string list \<Rightarrow> string" where
  "group n pat m = concat (map snd (filter (\<lambda>(a, x). snd (snd a) = n) (zip (fst pat) m)))"

text \<open>The classes \<^verbatim>\<open>.\<close> (anything but a line feed) and a single character.\<close>

definition any_char :: "char \<Rightarrow> bool" where
  "any_char c = (c \<noteq> newline)"

definition chr :: "char \<Rightarrow> char \<Rightarrow> bool" where
  "chr c x = (x = c)"

definition one_of :: "string \<Rightarrow> char \<Rightarrow> bool" where
  "one_of cs x = (x \<in> set cs)"

text \<open>A literal text: one atom for each of its characters.\<close>

definition lit :: "string \<Rightarrow> atom list" where
  "lit s = map (\<lambda>c. (chr c, One, 0)) s"

text \<open>
  \<^verbatim>\<open>re.sub(pattern, repl, s)\<close>: the matches are replaced from left to right, the search
  going on behind each match; an empty match is replaced too and the next character kept.
\<close>

fun re_sub :: "pattern \<Rightarrow> string \<Rightarrow> string \<Rightarrow> string" where
  "re_sub pat repl [] = (case re_match pat [] of Some m \<Rightarrow> repl | None \<Rightarrow> [])"
| "re_sub pat repl (c # cs) =
     (case re_match pat (c # cs) of
        None \<Rightarrow> c # re_sub pat repl cs
      | Some m \<Rightarrow>
          (if concat m = [] then repl @ c # re_sub pat repl cs
           else repl @ re_sub pat repl (drop (length (concat m) - 1) cs)))"

section \<open>The patterns of the source\<close>

definition copyright_sign :: char where
  "copyright_sign = CHR 0xA9"

text \<open>\<^verbatim>\<open>Page (\d+) of (\d+)\<close>\<close>

definition page_pattern :: pattern where
  "page_pattern = (lit ''Page '' @ [(is_decimal, Plus, 1)] @ lit '' of '' @ [(is_decimal, Plus, 2)], False)"

text \<open>\<^verbatim>\<open>^(\d+)\.\s+(.+)$\<close>\<close>

definition main_pattern :: pattern where
  "main_pattern = ([(is_decimal, Plus, 1), (chr CHR ''.'', One, 0), (is_space, Plus, 0),
     (any_char, Plus, 2)], True)"

text \<open>\<^verbatim>\<open>^(\d+\.\d+)\s+(.+)$\<close>\<close>

definition sub_pattern :: pattern where
  "sub_pattern = ([(is_decimal, Plus, 1), (chr CHR ''.'', One, 1), (is_decimal, Plus, 1),
     (is_space, Plus, 0), (any_char, Plus, 2)], True)"

text \<open>\<^verbatim>\<open>^(\d+)\.\s+(.+?)\s+(\d+)$\<close> and \<^verbatim>\<open>^(\d+\.\d+)\s+(.+?)\s+(\d+)$\<close>\<close>

definition toc_patterns :: "pattern list" where
  "toc_patterns =
    [([(is_decimal, Plus, 1), (chr CHR ''.'', One, 0), (is_space, Plus, 0),
       (any_char, LazyPlus, 2), (is_space, Plus, 0), (is_decimal, Plus, 3)], True),
     ([(is_decimal, Plus, 1), (chr CHR ''.'', One, 1), (is_decimal, Plus, 1), (is_space, Plus, 0),
       (any_char, LazyPlus, 2), (is_space, Plus, 0), (is_decimal, Plus, 3)], True)]"

text \<open>The noise patterns, in the order of the source.\<close>

definition noise_patterns :: "pattern list" where
  "noise_patterns =
    [(lit ''copyright'' @ [(is_space, Star, 0), (chr copyright_sign, Opt, 0)], False),
     (lit ''version'' @ [(is_space, Plus, 0), (is_decimal, Plus, 0)], False),
     (lit ''page'' @ [(is_space, Plus, 0), (is_decimal, Plus, 0)], False),
     ([(is_decimal, Exactly 4, 0)], True),
     ([(chr copyright_sign, One, 0)], False),
     ([(is_decimal, Plus, 0)], True),
     ([(one_of ''ivx'', Plus, 0)], True),
     (lit ''www.'', False),
     (lit ''http'' @ [(chr CHR ''s'', Opt, 0)] @ lit ''://'', False),
     ([(is_space, Star, 0)], True)]"

text \<open>
  The structural patterns with their levels, in the order of the source's dictionary. Their
  groups are never read.
\<close>

datatype level = H1 | H2

definition structural_patterns :: "(pattern \<times> level) list" where
  "structural_patterns =
    [((lit ''acknowledgement'' @ [(chr CHR ''s'', Opt, 0)], True), H1),
     ((lit ''abstract'', True), H1),
     ((lit ''introduction'', True), H1),
     ((lit ''conclusion'', True), H1),
     ((lit ''reference'' @ [(chr CHR ''s'', Opt, 0)], True), H1),
     ((lit ''revision'' @ [(is_space, Plus, 0)] @ lit ''history'', True), H1),
     ((lit ''table'' @ [(is_space, Plus, 0)] @ lit ''of'' @ [(is_space, Plus, 0)] @ lit ''content''
        @ [(chr CHR ''s'', Opt, 0)], True), H1),
     ((lit ''intended'' @ [(is_space, Plus, 0)] @ lit ''audience'', True), H2),
     ((lit ''career'' @ [(is_space, Plus, 0)] @ lit ''path'' @ [(chr CHR ''s'', Opt, 0),
        (any_char, Star, 0)], True), H2),
     ((lit ''learning'' @ [(is_space, Plus, 0)] @ lit ''objective'' @ [(chr CHR ''s'', Opt, 0)], True), H2),
     ((lit ''entry'' @ [(is_space, Plus, 0)] @ lit ''requirement'' @ [(chr CHR ''s'', Opt, 0)], True), H2),
     ((lit ''business'' @ [(is_space, Plus, 0)] @ lit ''outcome'' @ [(chr CHR ''s'', Opt, 0)], True), H2),
     ((lit ''content'', True), H2),
     ((lit ''trademark'' @ [(chr CHR ''s'', Opt, 0)], True), H2)]"

text \<open>\<^verbatim>\<open>\s+\<close> and \<^verbatim>\<open>\.+\s*\d*\s*$\<close>, the two patterns of the cleaning function.\<close>

definition spaces_pattern :: pattern where
  "spaces_pattern = ([(is_space, Plus, 0)], False)"

definition trailing_pattern :: pattern where
  "trailing_pattern = ([(chr CHR ''.'', Plus, 0), (is_space, Star, 0), (is_decimal, Star, 0),
     (is_space, Star, 0)], True)"

text \<open>\<^verbatim>\<open>^\d+\.\<close>, the numbered prefix the title resolver looks for.\<close>

definition numbered_prefix :: pattern where
  "numbered_prefix = ([(is_decimal, Plus, 0), (chr CHR ''.'', One, 0)], False)"

section \<open>The extractor\<close>

text \<open>
  The dictionaries of the source with fixed keys are records. A candidate is the dictionary
  a detector appends (\<^verbatim>\<open>level\<close>, \<^verbatim>\<open>text\<close>, \<^verbatim>\<open>page\<close>, \<^verbatim>\<open>position\<close>, \<^verbatim>\<open>confidence\<close>), a heading
  the dictionary of the final outline (\<^verbatim>\<open>level\<close>, \<^verbatim>\<open>text\<close>, \<^verbatim>\<open>page\<close>). The key \<^verbatim>\<open>text\<close> is
  the field \<open>text_of\<close>. The confidences are the decimal constants 0.9, 0.8, 0.6 and 0.5, which
  the source only negates and compares; they are rational numbers here.
\<close>

record heading =
  level :: level
  text_of :: string
  page :: int

record candidate = heading +
  position :: nat
  confidence :: rat

record extractor =
  pdf_text :: string
  lines :: "string list"
  current_page :: int
  line_to_page :: "nat \<rightharpoonup> int"

record outline_result =
  title :: string
  outline :: "heading list"

text \<open>
  \<^verbatim>\<open>__init__\<close>. The attribute \<^verbatim>\<open>line_to_page\<close> is created by \<^verbatim>\<open>_parse_page_info\<close>, the first
  call of \<^verbatim>\<open>extract_headings\<close>; it starts as the empty dictionary here.
\<close>

definition init :: "string \<Rightarrow> extractor" where
  "init t = \<lparr>pdf_text = t,
     lines = map strip (filter (\<lambda>line. strip line \<noteq> []) (split_nl t)),
     current_page = 1,
     line_to_page = Map.empty\<rparr>"

text \<open>\<^verbatim>\<open>_parse_page_info\<close>: the loop keeps the current page and fills the dictionary.\<close>

fun page_loop :: "int \<Rightarrow> (nat \<rightharpoonup> int) \<Rightarrow> (nat \<times> string) list \<Rightarrow> error + (nat \<rightharpoonup> int)" where
  "page_loop cur m [] = Inr m"
| "page_loop cur m ((i, line) # rest) =
     (case re_search page_pattern line of
        None \<Rightarrow> page_loop cur (m(i \<mapsto> cur)) rest
      | Some g \<Rightarrow> bind_res (py_int (group 1 page_pattern g))
          (\<lambda>p. page_loop p (m(i \<mapsto> p)) rest))"

definition parse_page_info :: "extractor \<Rightarrow> error + extractor" where
  "parse_page_info ex = bind_res (page_loop 1 Map.empty (enumerate 0 (lines ex)))
     (\<lambda>m. Inr (ex\<lparr>line_to_page := m\<rparr>))"

text \<open>\<^verbatim>\<open>self.line_to_page.get(i, 1)\<close>\<close>

definition get_page :: "extractor \<Rightarrow> nat \<Rightarrow> int" where
  "get_page ex i = (case line_to_page ex i of Some p \<Rightarrow> p | None \<Rightarrow> 1)"

text \<open>\<^verbatim>\<open>_is_noise_line\<close>\<close>

definition is_noise_line :: "string \<Rightarrow> bool" where
  "is_noise_line line = (let line_lower = lower line in
     list_ex (\<lambda>pat. re_match pat line_lower \<noteq> None) noise_patterns)"

text \<open>\<^verbatim>\<open>_clean_heading_text\<close>\<close>

definition clean_heading_text :: "string \<Rightarrow> string" where
  "clean_heading_text t = strip (re_sub trailing_pattern [] (re_sub spaces_pattern '' '' t))"

text \<open>
  \<^verbatim>\<open>_is_valid_heading\<close>. The test \<^verbatim>\<open>special_char_count > len(text) * 0.3\<close> compares an
  integer with a floating-point product; for the lengths that reach it (3 to 200) the
  product is the nearest double of three tenths of the length, which is the integer itself
  whenever three tenths of the length is an integer, so the test is the comparison of
  rational numbers written here.
\<close>

definition special_char_count :: "string \<Rightarrow> nat" where
  "special_char_count t = length (filter (\<lambda>c. \<not> isalnum c \<and> c \<noteq> CHR '' '') t)"

definition prev_score :: "extractor \<Rightarrow> nat \<Rightarrow> error + nat" where
  "prev_score ex line_index =
     (if line_index > 0 then
        bind_res (index (lines ex) (line_index - 1))
          (\<lambda>l. let prev_line = strip l in
                Inr (if length prev_line < 20 \<or> prev_line = [] then 1 else 0))
      else Inr 0)"

definition next_score :: "extractor \<Rightarrow> nat \<Rightarrow> error + nat" where
  "next_score ex line_index =
     (if int line_index < int (length (lines ex)) - 1 then
        bind_res (index (lines ex) (line_index + 1))
          (\<lambda>l. let next_line = strip l in
                if next_line = [] then Inr 1
                else bind_res (index next_line 0) (\<lambda>c. Inr (if isupper c then 1 else 0)))
      else Inr 0)"

definition is_valid_heading :: "extractor \<Rightarrow> string \<Rightarrow> nat \<Rightarrow> error + bool" where
  "is_valid_heading ex t line_index =
     (if t = [] \<or> length t < 3 \<or> length t > 200 then Inr False
      else if isdigit t then Inr False
      else if (of_nat (special_char_count t) :: rat) > of_nat (length t) * (3 / 10) then Inr False
      else bind_res (prev_score ex line_index)
             (\<lambda>a. bind_res (next_score ex line_index)
                (\<lambda>b. Inr (a + b \<ge> 1))))"

text \<open>
  \<^verbatim>\<open>_extract_numbered_headings\<close>: what one iteration of the loop appends, then the loop.
\<close>

definition numbered_line :: "extractor \<Rightarrow> nat \<Rightarrow> string \<Rightarrow> error + candidate list" where
  "numbered_line ex i line =
     (if is_noise_line line then Inr []
      else case re_match main_pattern line of
        Some m \<Rightarrow>
          (let num = group 1 main_pattern m;
               t = clean_heading_text (group 2 main_pattern m)
           in bind_res (is_valid_heading ex t i)
                (\<lambda>ok. Inr (if ok then
                   [\<lparr>level = H1, text_of = num @ ''. '' @ t, page = get_page ex i,
                     position = i, confidence = 9 / 10\<rparr>] else [])))
      | None \<Rightarrow>
          (case re_match sub_pattern line of
             Some m \<Rightarrow>
               (let num = group 1 sub_pattern m;
                    t = clean_heading_text (group 2 sub_pattern m)
                in bind_res (is_valid_heading ex t i)
                     (\<lambda>ok. Inr (if ok then
                        [\<lparr>level = H2, text_of = num @ '' '' @ t, page = get_page ex i,
                          position = i, confidence = 8 / 10\<rparr>] else [])))
           | None \<Rightarrow> Inr []))"

definition extract_numbered_headings :: "extractor \<Rightarrow> error + candidate list" where
  "extract_numbered_headings ex =
     bind_res (collect (map (\<lambda>(i, line). numbered_line ex i line) (enumerate 0 (lines ex))))
       (\<lambda>cs. Inr (concat cs))"

text \<open>
  \<^verbatim>\<open>_extract_structural_headings\<close>: the inner loop over the patterns leaves at the first
  pattern that matches and whose line is valid.
\<close>

fun structural_line :: "extractor \<Rightarrow> nat \<Rightarrow> string \<Rightarrow> (pattern \<times> level) list \<Rightarrow> error + candidate list" where
  "structural_line ex i line [] = Inr []"
| "structural_line ex i line ((pat, lv) # rest) =
     (if re_match pat (strip (lower line)) \<noteq> None then
        bind_res (is_valid_heading ex line i)
          (\<lambda>ok. if ok then
                   Inr [\<lparr>level = lv, text_of = line, page = get_page ex i,
                         position = i, confidence = 6 / 10\<rparr>]
                 else structural_line ex i line rest)
      else structural_line ex i line rest)"

definition extract_structural_headings :: "extractor \<Rightarrow> error + candidate list" where
  "extract_structural_headings ex =
     bind_res (collect (map (\<lambda>(i, line). structural_line ex i line structural_patterns)
                 (enumerate 0 (lines ex))))
       (\<lambda>cs. Inr (concat cs))"

text \<open>
  \<^verbatim>\<open>_extract_toc_headings\<close>: the inner loop over the two patterns, then the loop over the
  lines with its flag \<^verbatim>\<open>in_toc\<close>.
\<close>

fun toc_entry :: "nat \<Rightarrow> string \<Rightarrow> pattern list \<Rightarrow> error + candidate list" where
  "toc_entry i line [] = Inr []"
| "toc_entry i line (pat # rest) =
     (case re_match pat line of
        None \<Rightarrow> toc_entry i line rest
      | Some m \<Rightarrow>
          (let num = group 1 pat m; t = group 2 pat m; page_num = group 3 pat m;
               lv = (if CHR ''.'' \<notin> set num then H1 else H2)
           in bind_res (py_int page_num)
                (\<lambda>pg. Inr [\<lparr>level = lv, text_of = num @ '' '' @ t, page = pg,
                             position = i, confidence = 5 / 10\<rparr>])))"

fun toc_loop :: "bool \<Rightarrow> (nat \<times> string) list \<Rightarrow> error + candidate list" where
  "toc_loop in_toc [] = Inr []"
| "toc_loop in_toc ((i, line) # rest) =
     (let line_lower = strip (lower line) in
      if contains ''table of contents'' line_lower then toc_loop True rest
      else if in_toc \<and> (startswith line_lower ''page '' \<or>
                line_lower \<in> set [''abstract'', ''introduction'', ''acknowledgements''])
        then toc_loop False rest
      else if in_toc \<and> line \<noteq> [] then
        bind_res (toc_entry i line toc_patterns)
          (\<lambda>cs. bind_res (toc_loop in_toc rest) (\<lambda>ds. Inr (cs @ ds)))
      else toc_loop in_toc rest)"

definition extract_toc_headings :: "extractor \<Rightarrow> error + candidate list" where
  "extract_toc_headings ex = toc_loop False (enumerate 0 (lines ex))"

text \<open>
  \<^verbatim>\<open>_clean_and_process_headings\<close>. \<^verbatim>\<open>list.sort\<close> is stable; with a key function it computes
  the key of every element first, and an exception of the key function ends the sort.
\<close>

definition dedup_key :: "('a heading_scheme) \<Rightarrow> string \<times> int" where
  "dedup_key h = (strip (lower (text_of h)), page h)"

fun dedup :: "(string \<times> int) set \<Rightarrow> candidate list \<Rightarrow> heading list" where
  "dedup seen [] = []"
| "dedup seen (h # hs) =
     (let key = dedup_key h in
      if key \<notin> seen then
        \<lparr>level = level h, text_of = text_of h, page = page h\<rparr> # dedup (insert key seen) hs
      else dedup seen hs)"

definition position_of :: "candidate list \<Rightarrow> heading \<Rightarrow> error + nat" where
  "position_of headings x =
     (case find (\<lambda>h. text_of h = text_of x \<and> page h = page x) headings of
        None \<Rightarrow> Inl StopIteration
      | Some h \<Rightarrow> Inr (position h))"

definition sort_by :: "('a \<Rightarrow> error + nat) \<Rightarrow> 'a list \<Rightarrow> error + 'a list" where
  "sort_by key xs = bind_res (collect (map key xs))
     (\<lambda>ks. Inr (map snd (sort_key fst (zip ks xs))))"

definition clean_and_process_headings :: "candidate list \<Rightarrow> error + heading list" where
  "clean_and_process_headings headings =
     (let sorted_headings = sort_key (\<lambda>x. (- confidence x, position x)) headings;
          unique_headings = dedup {} sorted_headings
      in sort_by (position_of sorted_headings) unique_headings)"

text \<open>\<^verbatim>\<open>_determine_document_title\<close>\<close>

fun title_scan :: "string list \<Rightarrow> string option" where
  "title_scan [] = None"
| "title_scan (line # rest) =
     (if length line > 10 \<and> re_match numbered_prefix line = None \<and> \<not> is_noise_line line \<and>
         \<not> startswith (lower line) ''page ''
      then Some line else title_scan rest)"

definition determine_document_title :: "extractor \<Rightarrow> heading list \<Rightarrow> error + string" where
  "determine_document_title ex headings =
     (if headings = [] then Inr ''Unknown Document''
      else case title_scan (take 10 (lines ex)) of
        Some line \<Rightarrow> Inr line
      | None \<Rightarrow>
          (if headings \<noteq> [] then bind_res (index headings 0) (\<lambda>h. Inr (text_of h))
           else Inr ''Unknown Document''))"

text \<open>\<^verbatim>\<open>extract_headings\<close> and the entry point \<^verbatim>\<open>extract_headings_from_pdf_text\<close>\<close>

definition extract_headings :: "extractor \<Rightarrow> error + outline_result" where
  "extract_headings ex0 =
     bind_res (parse_page_info ex0) (\<lambda>ex.
     bind_res (extract_numbered_headings ex) (\<lambda>numbered.
     bind_res (extract_structural_headings ex) (\<lambda>structural.
     bind_res (extract_toc_headings ex) (\<lambda>toc.
     bind_res (clean_and_process_headings (numbered @ structural @ toc)) (\<lambda>cleaned_headings.
     bind_res (determine_document_title ex cleaned_headings) (\<lambda>t.
     Inr \<lparr>title = t, outline = cleaned_headings\<rparr>))))))"

definition extract_headings_from_pdf_text :: "string \<Rightarrow> error + outline_result" where
  "extract_headings_from_pdf_text t = extract_headings (init t)"

section \<open>Notions used to state the properties\<close>

text \<open>
  The candidates found in a text: the three detectors run on the extractor whose pages
  have been parsed, their results concatenated as \<^verbatim>\<open>extract_headings\<close> does.
\<close>

definition detect :: "extractor \<Rightarrow> error + candidate list" where
  "detect ex =
     bind_res (extract_numbered_headings ex) (\<lambda>numbered.
     bind_res (extract_structural_headings ex) (\<lambda>structural.
     bind_res (extract_toc_headings ex) (\<lambda>toc.
     Inr (numbered @ structural @ toc))))"

definition candidates_of :: "string \<Rightarrow> error + candidate list" where
  "candidates_of t = bind_res (parse_page_info (init t)) detect"

text \<open>The heading a candidate becomes: the candidate without position and confidence.\<close>

definition heading_of :: "candidate \<Rightarrow> heading" where
  "heading_of c = \<lparr>level = level c, text_of = text_of c, page = page c\<rparr>"

text \<open>
  The candidate that produces a heading, in the words of the specification: the first
  candidate with the heading's key when the candidates are ordered by falling confidence
  and, for equal confidence, by rising position. Its position is the heading's position
  in the document.
\<close>

definition source_of :: "candidate list \<Rightarrow> heading \<Rightarrow> candidate option" where
  "source_of hs h =
     find (\<lambda>c. dedup_key c = dedup_key h) (sort_key (\<lambda>x. (- confidence x, position x)) hs)"

definition source_position :: "candidate list \<Rightarrow> heading \<Rightarrow> nat" where
  "source_position hs h = (case source_of hs h of Some c \<Rightarrow> position c | None \<Rightarrow> 0)"

text \<open>The candidates the loop of the deduplicator keeps, with their positions.\<close>

fun kept :: "(string \<times> int) set \<Rightarrow> candidate list \<Rightarrow> candidate list" where
  "kept seen [] = []"
| "kept seen (h # hs) =
     (if dedup_key h \<notin> seen then h # kept (insert (dedup_key h) seen) hs else kept seen hs)"

definition kept_candidates :: "candidate list \<Rightarrow> candidate list" where
  "kept_candidates hs = kept {} (sort_key (\<lambda>x. (- confidence x, position x)) hs)"

text \<open>What a match gives each atom: characters of its class, as many as its quantifier allows.\<close>

fun quant_ok :: "quant \<Rightarrow> nat \<Rightarrow> bool" where
  "quant_ok One n = (n = 1)"
| "quant_ok Opt n = (n \<le> 1)"
| "quant_ok Star n = True"
| "quant_ok Plus n = (n \<ge> 1)"
| "quant_ok LazyPlus n = (n \<ge> 1)"
| "quant_ok (Exactly k) n = (n = k)"

definition atom_ok :: "atom \<Rightarrow> string \<Rightarrow> bool" where
  "atom_ok a m = (list_all (fst a) m \<and> quant_ok (fst (snd a)) (length m))"

definition takes_one :: "quant \<Rightarrow> bool" where
  "takes_one q = (q = One \<or> q = Plus \<or> q = LazyPlus)"

text \<open>
  The two parts of the validity filter: the tests on the text alone, and the score of the
  neighbouring lines.
\<close>

definition plausible :: "string \<Rightarrow> bool" where
  "plausible t = (3 \<le> length t \<and> length t \<le> 200 \<and> \<not> isdigit t \<and>
     \<not> (of_nat (special_char_count t) :: rat) > of_nat (length t) * (3 / 10))"

definition context_score :: "string list \<Rightarrow> nat \<Rightarrow> nat" where
  "context_score ls i =
     (if 0 < i \<and> length (strip (ls ! (i - 1))) < 20 then 1 else 0) +
     (if i + 1 < length ls \<and> (strip (ls ! (i + 1)) = [] \<or> isupper (hd (strip (ls ! (i + 1)))))
      then 1 else 0)"

text \<open>
  A text of four lines used as a concrete input: a short line, the structural heading
  \<^verbatim>\<open>Abstract\<close>, a numbered heading, and \<^verbatim>\<open>abstract\<close> again in lower case.
\<close>

definition sample_text :: string where
  "sample_text =
     ''Scope'' @ [newline] @ ''Abstract'' @ [newline] @ ''1. Goals'' @ [newline] @ ''abstract''"

text \<open>The number a string of decimal digits denotes.\<close>

definition decimal_value :: "string \<Rightarrow> int" where
  "decimal_value s = foldl (\<lambda>a c. 10 * a + digit_val c) 0 s"

text \<open>
  A page marker, in the words of the specification: the text \<^verbatim>\<open>Page\<close>, a space, a number,
  the text \<^verbatim>\<open>of\<close> between spaces, and a number. \<open>marker_at s\<close> is the first number of a
  marker with which \<open>s\<close> begins, \<open>find_marker s\<close> that of the leftmost marker in \<open>s\<close>.
\<close>

definition marker_at :: "string \<Rightarrow> string option" where
  "marker_at s =
     (if startswith s ''Page '' then
        (let r = drop 5 s; ds = takeWhile is_decimal r; r2 = dropWhile is_decimal r in
         if ds \<noteq> [] \<and> startswith r2 '' of '' \<and> takeWhile is_decimal (drop 4 r2) \<noteq> []
         then Some ds else None)
      else None)"

fun find_marker :: "string \<Rightarrow> string option" where
  "find_marker [] = None"
| "find_marker (c # cs) =
     (case marker_at (c # cs) of Some ds \<Rightarrow> Some ds | None \<Rightarrow> find_marker cs)"

text \<open>The page in effect at each line: the number of the last marker seen, 1 before any.\<close>

fun pages_from :: "int \<Rightarrow> string list \<Rightarrow> int list" where
  "pages_from cur [] = []"
| "pages_from cur (l # ls) =
     (let p = (case find_marker l of Some ds \<Rightarrow> decimal_value ds | None \<Rightarrow> cur)
      in p # pages_from p ls)"






text \<open>
  A line that can be the title, in the words of the specification: longer than 10
  characters, not beginning with a number and a dot, not noise, and not beginning with
  \<^verbatim>\<open>page\<close> and a space in any case.
\<close>

definition has_numbered_prefix :: "string \<Rightarrow> bool" where
  "has_numbered_prefix line =
     (takeWhile is_decimal line \<noteq> [] \<and> startswith (dropWhile is_decimal line) ''.'')"

definition title_line :: "string \<Rightarrow> bool" where
  "title_line line = (length line > 10 \<and> \<not> has_numbered_prefix line \<and> \<not> is_noise_line line \<and>
     \<not> startswith (lower line) ''page '')"


text \<open>
  A text whose only white space is single blanks: every white-space character is a blank
  and no blank is followed by white space.
\<close>

fun normal :: "string \<Rightarrow> bool" where
  "normal [] = True"
| "normal [c] = (if is_space c then c = CHR '' '' else True)"
| "normal (c # d # r) =
     ((if is_space c then c = CHR '' '' \<and> \<not> is_space d else True) \<and> normal (d # r))"

text \<open>
  A text that ends with dots optionally followed by a number: read from the end, white
  space, then digits, then white space, then a dot.
\<close>

definition has_trailing_dots :: "string \<Rightarrow> bool" where
  "has_trailing_dots s =
     (let r = dropWhile is_space (rev s);
          r1 = dropWhile is_decimal r;
          r2 = dropWhile is_space r1
      in r2 \<noteq> [] \<and> hd r2 = CHR ''.'')"






section \<open>Lemmas\<close>

lemma bind_res_Inr [simp]: "bind_res (Inr v) f = f v"
  by (simp add: bind_res_def)

lemma bind_res_Inl [simp]: "bind_res (Inl e) f = Inl e"
  by (simp add: bind_res_def)

lemma collect_all_Inr: "collect (map Inr xs) = Inr xs"
  by (induction xs) simp_all

lemma collect_map_Inr:
  "(\<And>x. x \<in> set xs \<Longrightarrow> f x = Inr (g x)) \<Longrightarrow> collect (map f xs) = Inr (map g xs)"
  by (induction xs) simp_all

lemma dedup_kept: "dedup seen hs = map heading_of (kept seen hs)"
  by (induction hs arbitrary: seen) (simp_all add: Let_def heading_of_def)

lemma dedup_key_heading_of [simp]: "dedup_key (heading_of c) = dedup_key c"
  by (simp add: dedup_key_def heading_of_def)

lemma kept_keys_notin: "c \<in> set (kept seen hs) \<Longrightarrow> dedup_key c \<notin> seen"
  by (induction hs arbitrary: seen) (auto split: if_splits)

lemma kept_subset: "set (kept seen hs) \<subseteq> set hs"
  by (induction hs arbitrary: seen) (auto split: if_splits)

lemma kept_distinct: "distinct (map dedup_key (kept seen hs))"
proof (induction hs arbitrary: seen)
  case Nil
  then show ?case by simp
next
  case (Cons h hs)
  show ?case
  proof (cases "dedup_key h \<in> seen")
    case True
    then show ?thesis using Cons.IH by simp
  next
    case False
    have "dedup_key h \<notin> dedup_key ` set (kept (insert (dedup_key h) seen) hs)"
      using kept_keys_notin by fastforce
    then show ?thesis using False Cons.IH by simp
  qed
qed

lemma kept_keys: "dedup_key ` set (kept seen hs) = dedup_key ` set hs - seen"
proof (induction hs arbitrary: seen)
  case Nil
  then show ?case by simp
next
  case (Cons h hs)
  show ?case
  proof (cases "dedup_key h \<in> seen")
    case True
    then show ?thesis using Cons.IH [of seen] by auto
  next
    case False
    then show ?thesis using Cons.IH [of "insert (dedup_key h) seen"] by auto
  qed
qed

lemma kept_first:
  "c \<in> set (kept seen hs) \<Longrightarrow>
   \<exists>ys zs. hs = ys @ c # zs \<and> (\<forall>y \<in> set ys. dedup_key y \<noteq> dedup_key c)"
proof (induction hs arbitrary: seen)
  case Nil
  then show ?case by simp
next
  case (Cons h hs)
  show ?case
  proof (cases "dedup_key h \<in> seen")
    case True
    with Cons.prems have c: "c \<in> set (kept seen hs)" by simp
    from Cons.IH [OF c] obtain ys zs where
      e: "hs = ys @ c # zs" and n: "\<forall>y \<in> set ys. dedup_key y \<noteq> dedup_key c" by blast
    have "dedup_key c \<notin> seen" using c by (rule kept_keys_notin)
    with True have "dedup_key h \<noteq> dedup_key c" by auto
    with e n have "h # hs = (h # ys) @ c # zs \<and> (\<forall>y \<in> set (h # ys). dedup_key y \<noteq> dedup_key c)"
      by simp
    then show ?thesis by blast
  next
    case False
    with Cons.prems have "c = h \<or> c \<in> set (kept (insert (dedup_key h) seen) hs)" by auto
    then show ?thesis
    proof
      assume "c = h"
      then have "h # hs = [] @ c # hs \<and> (\<forall>y \<in> set []. dedup_key y \<noteq> dedup_key c)" by simp
      then show ?thesis by blast
    next
      assume c: "c \<in> set (kept (insert (dedup_key h) seen) hs)"
      from Cons.IH [OF c] obtain ys zs where
        e: "hs = ys @ c # zs" and n: "\<forall>y \<in> set ys. dedup_key y \<noteq> dedup_key c" by blast
      have "dedup_key c \<notin> insert (dedup_key h) seen" using c by (rule kept_keys_notin)
      then have "dedup_key h \<noteq> dedup_key c" by auto
      with e n have "h # hs = (h # ys) @ c # zs \<and> (\<forall>y \<in> set (h # ys). dedup_key y \<noteq> dedup_key c)"
        by simp
      then show ?thesis by blast
    qed
  qed
qed

lemma find_first:
  "(\<forall>y \<in> set ys. \<not> P y) \<Longrightarrow> P c \<Longrightarrow> find P (ys @ c # zs) = Some c"
  by (induction ys) simp_all

lemma same_text_same_key:
  "text_of h = text_of c \<Longrightarrow> page h = page c \<Longrightarrow> dedup_key h = dedup_key c"
  by (simp add: dedup_key_def)

lemma position_of_kept:
  assumes "c \<in> set (kept seen hs)"
  shows "position_of hs (heading_of c) = Inr (position c)"
proof -
  from kept_first [OF assms] obtain ys zs where
    e: "hs = ys @ c # zs" and n: "\<forall>y \<in> set ys. dedup_key y \<noteq> dedup_key c" by blast
  have "\<forall>y \<in> set ys. \<not> (text_of y = text_of (heading_of c) \<and> page y = page (heading_of c))"
    using n same_text_same_key by (fastforce simp: heading_of_def)
  then have "find (\<lambda>h. text_of h = text_of (heading_of c) \<and> page h = page (heading_of c)) hs = Some c"
    unfolding e by (rule find_first) (simp add: heading_of_def)
  then show ?thesis by (simp add: position_of_def)
qed

lemma source_kept:
  assumes "c \<in> set (kept seen hs)"
  shows "find (\<lambda>x. dedup_key x = dedup_key c) hs = Some c"
proof -
  from kept_first [OF assms] obtain ys zs where
    e: "hs = ys @ c # zs" and n: "\<forall>y \<in> set ys. dedup_key y \<noteq> dedup_key c" by blast
  show ?thesis unfolding e using n by (intro find_first) auto
qed

lemma insort_key_map:
  "insort_key f (g x) (map g xs) = map g (insort_key (\<lambda>y. f (g y)) x xs)"
  by (induction xs) simp_all

lemma sort_key_map: "sort_key f (map g xs) = map g (sort_key (\<lambda>y. f (g y)) xs)"
  by (induction xs) (simp_all add: insort_key_map)

lemma sort_by_total:
  assumes "\<And>x. x \<in> set xs \<Longrightarrow> key x = Inr (k x)"
  shows "sort_by key xs = Inr (sort_key k xs)"
proof -
  have c: "collect (map key xs) = Inr (map k xs)"
    using assms by (rule collect_map_Inr)
  have z: "zip (map k xs) xs = map (\<lambda>x. (k x, x)) xs"
    by (induction xs) simp_all
  have "map snd (sort_key fst (map (\<lambda>x. (k x, x)) xs)) = sort_key k xs"
    by (simp add: sort_key_map o_def)
  then show ?thesis by (simp add: sort_by_def c z)
qed

lemma source_of_kept:
  "c \<in> set (kept_candidates hs) \<Longrightarrow> source_of hs (heading_of c) = Some c"
  unfolding kept_candidates_def source_of_def by (simp add: source_kept)

lemma clean_and_process_eq:
  "clean_and_process_headings hs =
     Inr (sort_key (source_position hs) (map heading_of (kept_candidates hs)))"
proof -
  let ?s = "sort_key (\<lambda>x. (- confidence x, position x)) hs"
  have "sort_by (position_of ?s) (map heading_of (kept {} ?s)) =
        Inr (sort_key (source_position hs) (map heading_of (kept {} ?s)))"
  proof (rule sort_by_total)
    fix x assume "x \<in> set (map heading_of (kept {} ?s))"
    then obtain c where c: "c \<in> set (kept {} ?s)" and x: "x = heading_of c" by auto
    have "source_of hs x = Some c"
      using c x source_of_kept by (simp add: kept_candidates_def)
    then have "source_position hs x = position c" by (simp add: source_position_def)
    then show "position_of ?s x = Inr (source_position hs x)"
      using position_of_kept [OF c] x by simp
  qed
  then show ?thesis
    by (simp add: clean_and_process_headings_def Let_def dedup_kept kept_candidates_def)
qed

lemma outline_sources:
  assumes "h \<in> set (sort_key (source_position hs) (map heading_of (kept_candidates hs)))"
  shows "\<exists>c. source_of hs h = Some c \<and> heading_of c = h \<and> c \<in> set hs"
proof -
  from assms obtain c where c: "c \<in> set (kept_candidates hs)" and h: "h = heading_of c" by auto
  have "c \<in> set (sort_key (\<lambda>x. (- confidence x, position x)) hs)"
    using c kept_subset [of "{}"] unfolding kept_candidates_def by blast
  then have "c \<in> set hs" by simp
  then show ?thesis using source_of_kept [OF c] h by blast
qed

lemma outline_distinct:
  "distinct (map dedup_key (sort_key (source_position hs) (map heading_of (kept_candidates hs))))"
proof -
  have d: "distinct (map dedup_key (map heading_of (kept_candidates hs)))"
    using kept_distinct [of "{}"] by (simp add: kept_candidates_def o_def)
  have "distinct (map heading_of (kept_candidates hs)) \<and>
        inj_on dedup_key (set (map heading_of (kept_candidates hs)))"
    using d by (simp only: distinct_map)
  then show ?thesis by (simp add: distinct_map)
qed

lemma outline_keys:
  "dedup_key ` set (sort_key (source_position hs) (map heading_of (kept_candidates hs)))
     = dedup_key ` set hs"
proof -
  have "dedup_key ` set (kept_candidates hs) = dedup_key ` set hs"
    using kept_keys [of "{}"] by (simp add: kept_candidates_def)
  then show ?thesis by (simp add: image_image)
qed

lemma runs_sound: "(a, b) \<in> set (runs p s) \<Longrightarrow> s = a @ b \<and> list_all p a"
  by (induction s arbitrary: a b) (auto split: if_splits)

lemma runs_hd: "\<exists>rest. runs p s = ([], s) # rest"
  by (cases s) simp_all

lemma runs_tl: "(a, b) \<in> set (tl (runs p s)) \<Longrightarrow> a \<noteq> [] \<and> (a, b) \<in> set (runs p s)"
  by (cases s) (auto split: if_splits)

lemma runs_lengths: "map (\<lambda>(a, b). length a) (runs p s) = [0..<length (runs p s)]"
proof (induction s)
  case Nil
  then show ?case by simp
next
  case (Cons c s)
  have "map (\<lambda>(a, b). length a) (map (\<lambda>(a, b). (c # a, b)) (runs p s))
        = map Suc (map (\<lambda>(a, b). length a) (runs p s))"
    by (simp add: o_def case_prod_beta)
  then show ?case using Cons by (simp add: map_Suc_upt upt_conv_Cons del: upt_Suc)
qed

lemma runs_take2: "(a, b) \<in> set (take 2 (runs p s)) \<Longrightarrow> length a \<le> 1 \<and> (a, b) \<in> set (runs p s)"
proof -
  assume m: "(a, b) \<in> set (take 2 (runs p s))"
  then have r: "(a, b) \<in> set (runs p s)" by (rule in_set_takeD)
  from m obtain i where i: "i < length (take 2 (runs p s))" "take 2 (runs p s) ! i = (a, b)"
    by (auto simp: in_set_conv_nth)
  then have i2: "i < 2" "i < length (runs p s)" "runs p s ! i = (a, b)" by auto
  have "map (\<lambda>(a, b). length a) (runs p s) ! i = [0..<length (runs p s)] ! i"
    by (simp add: runs_lengths)
  then have "length a = i" using i2 by simp
  then show ?thesis using r i2 by simp
qed

lemma choices_sound:
  "(a, b) \<in> set (choices q p s) \<Longrightarrow> s = a @ b \<and> list_all p a \<and> quant_ok q (length a)"
proof (cases q)
  case Opt
  assume "(a, b) \<in> set (choices q p s)"
  then show ?thesis using Opt runs_take2 [of a b p s] runs_sound [of a b p s] by simp
next
  case Plus
  assume "(a, b) \<in> set (choices q p s)"
  then show ?thesis using Plus runs_tl [of a b p s] runs_sound [of a b p s]
    by (cases a) auto
next
  case LazyPlus
  assume "(a, b) \<in> set (choices q p s)"
  then show ?thesis using LazyPlus runs_tl [of a b p s] runs_sound [of a b p s]
    by (cases a) auto
qed (auto dest: runs_sound)

lemma first_some_Some:
  "first_some f xs = Some y \<Longrightarrow> \<exists>x \<in> set xs. f x = Some y"
  by (induction xs) (auto split: option.splits)

lemma first_some_None:
  "first_some f xs = None \<longleftrightarrow> (\<forall>x \<in> set xs. f x = None)"
  by (induction xs) (auto split: option.splits)

lemma rmatch_sound:
  "rmatch as d s = Some ms \<Longrightarrow>
     list_all2 atom_ok as ms \<and> (\<exists>r. s = concat ms @ r \<and> (d \<longrightarrow> at_end r))"
proof (induction as arbitrary: s ms)
  case Nil
  then show ?case by (auto split: if_splits)
next
  case (Cons a as)
  from Cons.prems obtain x where
    x: "x \<in> set (choices (fst (snd a)) (fst a) s)"
    and fx: "(case x of (u, v) \<Rightarrow> map_option ((#) u) (rmatch as d v)) = Some ms"
    by (auto dest: first_some_Some)
  obtain u v where uv: "x = (u, v)" by (cases x)
  from fx uv obtain ms' where ms': "rmatch as d v = Some ms'" "ms = u # ms'" by auto
  from choices_sound [of u v] x uv have c: "s = u @ v" "list_all (fst a) u"
    "quant_ok (fst (snd a)) (length u)" by auto
  from Cons.IH [OF ms'(1)] obtain r where
    l: "list_all2 atom_ok as ms'" and r: "v = concat ms' @ r" "d \<longrightarrow> at_end r" by blast
  have "atom_ok a u" using c by (simp add: atom_ok_def)
  then have "list_all2 atom_ok (a # as) ms" using l ms'(2) by simp
  moreover have "s = concat ms @ r" using c r ms'(2) by simp
  ultimately show ?case using r(2) by blast
qed

lemma group_all:
  assumes "list_all2 atom_ok as ms"
    and "\<forall>a \<in> set as. snd (snd a) = n \<longrightarrow> (\<forall>c. fst a c \<longrightarrow> P c)"
  shows "list_all P (group n (as, d) ms)"
  using assms
proof (induction as ms rule: list_all2_induct)
  case Nil
  then show ?case by (simp add: group_def)
next
  case (Cons a as m ms)
  have r: "list_all P (group n (as, d) ms)" using Cons by simp
  show ?case
  proof (cases "snd (snd a) = n")
    case True
    have "list_all (fst a) m" using Cons.hyps(1) by (simp add: atom_ok_def)
    then have "list_all P m" using Cons.prems True by (auto simp: list_all_iff)
    then show ?thesis using r True by (simp add: group_def)
  next
    case False
    then show ?thesis using r by (simp add: group_def)
  qed
qed

lemma group_nonempty:
  assumes "list_all2 atom_ok as ms"
    and "\<exists>a \<in> set as. snd (snd a) = n \<and> takes_one (fst (snd a))"
  shows "group n (as, d) ms \<noteq> []"
  using assms
proof (induction as ms rule: list_all2_induct)
  case Nil
  then show ?case by simp
next
  case (Cons a as m ms)
  show ?case
  proof (cases "snd (snd a) = n \<and> takes_one (fst (snd a))")
    case True
    have "quant_ok (fst (snd a)) (length m)" using Cons.hyps(1) by (simp add: atom_ok_def)
    then have "m \<noteq> []" using True by (auto simp: takes_one_def)
    then show ?thesis using True by (simp add: group_def)
  next
    case False
    then have "group n (as, d) ms \<noteq> []" using Cons by auto
    then show ?thesis by (auto simp: group_def)
  qed
qed

lemma re_match_sound:
  "re_match pat s = Some ms \<Longrightarrow> list_all2 atom_ok (fst pat) ms"
  unfolding re_match_def by (auto dest: rmatch_sound)

lemma re_search_sound:
  "re_search pat s = Some ms \<Longrightarrow> list_all2 atom_ok (fst pat) ms"
  by (induction s) (auto split: option.splits dest: re_match_sound)


lemma page_group_ok:
  assumes "re_search page_pattern line = Some g"
  shows "group 1 page_pattern g \<noteq> [] \<and> list_all is_decimal (group 1 page_pattern g)"
proof -
  have l: "list_all2 atom_ok (fst page_pattern) g" using re_search_sound [OF assms] .
  have 1: "\<forall>a \<in> set (fst page_pattern). snd (snd a) = 1 \<longrightarrow> (\<forall>c. fst a c \<longrightarrow> is_decimal c)"
    by (auto simp: page_pattern_def lit_def)
  have 2: "\<exists>a \<in> set (fst page_pattern). snd (snd a) = 1 \<and> takes_one (fst (snd a))"
    by (auto simp: page_pattern_def lit_def takes_one_def)
  show ?thesis
    using group_all [OF l 1, of "snd page_pattern"] group_nonempty [OF l 2, of "snd page_pattern"]
    by simp
qed


lemma prev_score_eq:
  "i < length (lines ex) \<Longrightarrow>
   prev_score ex i = Inr (if 0 < i \<and> length (strip (lines ex ! (i - 1))) < 20 then 1 else 0)"
  by (auto simp: prev_score_def index_def Let_def)

lemma next_score_eq:
  "next_score ex i =
     Inr (if i + 1 < length (lines ex) \<and>
             (strip (lines ex ! (i + 1)) = [] \<or> isupper (hd (strip (lines ex ! (i + 1)))))
          then 1 else 0)"
proof (cases "i + 1 < length (lines ex)")
  case True
  then have c: "int i < int (length (lines ex)) - 1" by simp
  show ?thesis
  proof (cases "strip (lines ex ! (i + 1))")
    case Nil
    then show ?thesis using True c by (simp add: next_score_def index_def)
  next
    case (Cons c' cs)
    then show ?thesis using True c by (simp add: next_score_def index_def)
  qed
next
  case False
  then have "\<not> int i < int (length (lines ex)) - 1" by simp
  then show ?thesis using False by (simp add: next_score_def)
qed

lemma is_valid_heading_eq:
  "i < length (lines ex) \<Longrightarrow>
   is_valid_heading ex t i = Inr (plausible t \<and> 1 \<le> context_score (lines ex) i)"
  by (simp add: is_valid_heading_def prev_score_eq next_score_eq plausible_def
      context_score_def)

lemma collect_Inr_iff: "collect rs = Inr vs \<longleftrightarrow> rs = map Inr vs"
proof (induction rs arbitrary: vs)
  case Nil
  then show ?case by auto
next
  case (Cons r rs)
  show ?case
  proof (cases r)
    case (Inl e)
    then show ?thesis by (cases vs) auto
  next
    case (Inr v)
    show ?thesis
    proof (cases "collect rs")
      case (Inl e)
      then have "\<And>us. rs \<noteq> map Inr us" using Cons.IH by auto
      then show ?thesis using Inl Inr by (cases vs) auto
    next
      case r: (Inr us)
      then have "rs = map Inr us" using Cons.IH by simp
      then show ?thesis using r Inr Cons.IH by (cases vs) auto
    qed
  qed
qed








lemma extract_headings_unfold:
  "extract_headings ex0 =
     bind_res (parse_page_info ex0) (\<lambda>ex.
     bind_res (detect ex) (\<lambda>hs.
     bind_res (clean_and_process_headings hs) (\<lambda>cleaned.
     bind_res (determine_document_title ex cleaned) (\<lambda>t.
     Inr \<lparr>title = t, outline = cleaned\<rparr>))))"
  by (auto simp: extract_headings_def detect_def bind_res_def split: sum.splits)

lemma sample_run:
  "extract_headings_from_pdf_text sample_text =
     Inr \<lparr>title = ''Abstract'',
          outline = [\<lparr>level = H1, text_of = ''Abstract'', page = 1\<rparr>,
                     \<lparr>level = H1, text_of = ''1. Goals'', page = 1\<rparr>]\<rparr>"
  by code_simp

lemma runs_closed:
  "runs p s = map (\<lambda>k. (take k s, drop k s)) [0..<Suc (length (takeWhile p s))]"
proof (induction s)
  case Nil
  then show ?case by simp
next
  case (Cons c s)
  show ?case
  proof (cases "p c")
    case True
    have "map (\<lambda>(a, b). (c # a, b)) (runs p s) =
          map (\<lambda>k. (take k (c # s), drop k (c # s))) (map Suc [0..<Suc (length (takeWhile p s))])"
      by (simp add: Cons.IH)
    then show ?thesis using True
      by (simp add: map_Suc_upt upt_conv_Cons del: upt_Suc)
  next
    case False
    then show ?thesis by simp
  qed
qed

lemma take_takeWhile_len: "take (length (takeWhile p s)) s = takeWhile p s"
  by (induction s) simp_all

lemma drop_takeWhile_len: "drop (length (takeWhile p s)) s = dropWhile p s"
  by (induction s) simp_all

lemma choices_Plus_longest:
  "takeWhile p s \<noteq> [] \<Longrightarrow>
   \<exists>rest. choices Plus p s = (takeWhile p s, dropWhile p s) # rest"
proof -
  assume n: "takeWhile p s \<noteq> []"
  let ?n = "length (takeWhile p s)"
  have "tl (runs p s) = map (\<lambda>k. (take k s, drop k s)) [1..<Suc ?n]"
    by (simp add: runs_closed upt_conv_Cons map_tl del: upt_Suc)
  also have "[1..<Suc ?n] = [1..<?n] @ [?n]" using n by (simp add: Suc_leI)
  finally have "rev (tl (runs p s)) =
    (take ?n s, drop ?n s) # rev (map (\<lambda>k. (take k s, drop k s)) [1..<?n])" by simp
  then show ?thesis by (simp add: take_takeWhile_len drop_takeWhile_len)
qed

lemma choices_Plus_empty: "takeWhile p s = [] \<Longrightarrow> choices Plus p s = []"
  by (simp add: runs_closed)

lemma choices_Plus_mem:
  "(a, b) \<in> set (choices Plus p s) \<Longrightarrow>
   a \<noteq> [] \<and> s = a @ b \<and> (a = takeWhile p s \<or> (b \<noteq> [] \<and> p (hd b)))"
proof -
  assume m: "(a, b) \<in> set (choices Plus p s)"
  then obtain k where k: "1 \<le> k" "k \<le> length (takeWhile p s)" "a = take k s" "b = drop k s"
    by (auto simp: runs_closed map_tl upt_conv_Cons simp del: upt_Suc)
  have l: "length (takeWhile p s) \<le> length s" by (rule length_takeWhile_le)
  have a: "a \<noteq> []" using k l by auto
  show ?thesis
  proof (cases "k = length (takeWhile p s)")
    case True
    then show ?thesis using k a by (simp add: take_takeWhile_len drop_takeWhile_len)
  next
    case False
    then have lt: "k < length (takeWhile p s)" using k by simp
    then have "b \<noteq> []" using k l by simp
    moreover have "hd b = s ! k" using k lt l by (simp add: hd_drop_conv_nth)
    moreover have "s ! k = takeWhile p s ! k" using lt by (simp add: takeWhile_nth)
    moreover have "p (takeWhile p s ! k)" using lt by (metis nth_mem set_takeWhileD)
    ultimately show ?thesis using k a by simp
  qed
qed

lemma first_some_hd: "f x = Some y \<Longrightarrow> first_some f (x # xs) = Some y"
  by simp

lemma rmatch_plus_last:
  "rmatch [(p, Plus, g)] False s = (if takeWhile p s = [] then None else Some [takeWhile p s])"
proof (cases "takeWhile p s = []")
  case True
  then show ?thesis by (simp add: choices_Plus_empty del: choices.simps)
next
  case False
  from choices_Plus_longest [OF False] obtain rest where
    "choices Plus p s = (takeWhile p s, dropWhile p s) # rest" by blast
  then show ?thesis using False by (simp del: choices.simps)
qed

lemma rmatch_plus_then:
  assumes "\<And>y. y \<noteq> [] \<Longrightarrow> p (hd y) \<Longrightarrow> rmatch as d y = None"
  shows "rmatch ((p, Plus, g) # as) d s =
     (if takeWhile p s = [] then None
      else map_option ((#) (takeWhile p s)) (rmatch as d (dropWhile p s)))"
proof (cases "takeWhile p s = []")
  case True
  then show ?thesis by (simp add: choices_Plus_empty del: choices.simps)
next
  case False
  from choices_Plus_longest [OF False] obtain rest where
    c: "choices Plus p s = (takeWhile p s, dropWhile p s) # rest" by blast
  show ?thesis
  proof (cases "rmatch as d (dropWhile p s)")
    case (Some ms)
    then show ?thesis using False c by (simp del: choices.simps)
  next
    case None
    have "\<forall>x \<in> set (choices Plus p s). (case x of (u, v) \<Rightarrow> map_option ((#) u) (rmatch as d v)) = None"
    proof
      fix x assume x: "x \<in> set (choices Plus p s)"
      obtain a b where ab: "x = (a, b)" by (cases x)
      from choices_Plus_mem [of a b p s] x ab
      have sab: "s = a @ b" and "a = takeWhile p s \<or> (b \<noteq> [] \<and> p (hd b))" by auto
      from this(2) show "(case x of (u, v) \<Rightarrow> map_option ((#) u) (rmatch as d v)) = None"
      proof
        assume a: "a = takeWhile p s"
        then have "b = dropWhile p s" using sab
          by (metis append_eq_conv_conj drop_takeWhile_len)
        then show ?thesis using None ab by simp
      next
        assume "b \<noteq> [] \<and> p (hd b)"
        then show ?thesis using assms ab by simp
      qed
    qed
    then have "rmatch ((p, Plus, g) # as) d s = None"
      by (simp add: first_some_None del: choices.simps)
    then show ?thesis using False None by simp
  qed
qed

lemma rmatch_lit:
  "rmatch ((chr c, One, g) # as) d s =
     (case s of [] \<Rightarrow> None
      | x # xs \<Rightarrow> if x = c then map_option ((#) [c]) (rmatch as d xs) else None)"
proof (cases s)
  case Nil
  then show ?thesis by simp
next
  case (Cons x xs)
  have r: "runs (chr c) xs = ([], xs) # tl (runs (chr c) xs)"
    by (cases xs) simp_all
  have "filter (\<lambda>(a, b). length a = 1) (map (\<lambda>(a, b). (x # a, b)) (tl (runs (chr c) xs))) = []"
    by (auto simp: filter_empty_conv dest!: runs_tl)
  then have "x = c \<Longrightarrow> choices One (chr c) (x # xs) = [([c], xs)]"
    by (subst choices.simps, subst runs.simps, subst r) (simp add: chr_def)
  moreover have "x \<noteq> c \<Longrightarrow> choices One (chr c) (x # xs) = []"
    by (simp add: chr_def)
  ultimately show ?thesis using Cons
    by (cases "x = c"; cases "rmatch as d xs") (simp_all del: choices.simps)
qed



lemma not_decimal_space [simp]: "\<not> is_decimal CHR '' ''"
  by (simp add: is_decimal_def code_def)













lemma pages_from_length [simp]: "length (pages_from cur ls) = length ls"
  by (induction ls arbitrary: cur) (simp_all add: Let_def)









lemma dot_no_digit:
  assumes "y \<noteq> []" "is_decimal (hd y)"
  shows "rmatch [(chr CHR ''.'', One, 0)] False y = None"
proof -
  have "\<not> is_decimal CHR ''.''" by (simp add: is_decimal_def code_def)
  then have "hd y \<noteq> CHR ''.''" using assms(2) by auto
  then show ?thesis using assms(1) unfolding rmatch_lit by (cases y) auto
qed

lemma numbered_prefix_match:
  "re_match numbered_prefix line = None \<longleftrightarrow> \<not> has_numbered_prefix line"
proof -
  have t0: "rmatch [(is_decimal, Plus, 0), (chr CHR ''.'', One, 0)] False r =
      (if takeWhile is_decimal r = [] then None
       else map_option ((#) (takeWhile is_decimal r))
              (rmatch [(chr CHR ''.'', One, 0)] False (dropWhile is_decimal r)))" for r
    by (rule rmatch_plus_then) (rule dot_no_digit)
  have m: "re_match numbered_prefix line =
      (if takeWhile is_decimal line = [] then None
       else case dropWhile is_decimal line of [] \<Rightarrow> None
            | x # xs \<Rightarrow> if x = CHR ''.'' then Some [takeWhile is_decimal line, ''.''] else None)"
  proof -
    have g: "map_option ((#) a)
        (case r of [] \<Rightarrow> None
         | x # xs \<Rightarrow> if x = CHR ''.'' then map_option ((#) ''.'') (rmatch [] False xs) else None) =
        (case r of [] \<Rightarrow> None
         | x # xs \<Rightarrow> if x = CHR ''.'' then Some [a, ''.''] else None)" for a r
      by (cases r) simp_all
    show ?thesis
      unfolding re_match_def numbered_prefix_def fst_conv snd_conv t0 rmatch_lit g
      by (rule refl)
  qed
  have h: "has_numbered_prefix line =
      (takeWhile is_decimal line \<noteq> [] \<and>
       (case dropWhile is_decimal line of [] \<Rightarrow> False | x # xs \<Rightarrow> x = CHR ''.''))"
  proof -
    have g: "startswith r ''.'' = (case r of [] \<Rightarrow> False | x # xs \<Rightarrow> x = CHR ''.'')" for r
      by (cases r) (simp_all add: startswith_def)
    show ?thesis unfolding has_numbered_prefix_def g by (rule refl)
  qed
  have g: "((if tw = [] then None
             else case r of [] \<Rightarrow> None
                  | x # xs \<Rightarrow> if x = CHR ''.'' then Some [tw, ''.''] else None) = None) =
           (\<not> (tw \<noteq> [] \<and> (case r of [] \<Rightarrow> False | x # xs \<Rightarrow> x = CHR ''.'')))"
    for tw r :: string
    by (cases r) auto
  show ?thesis unfolding m h by (rule g)
qed

lemma title_scan_find: "title_scan ls = find title_line ls"
  by (induction ls) (simp_all add: title_line_def numbered_prefix_match)

lemma determine_document_title_eq:
  "determine_document_title ex hs =
     Inr (if hs = [] then ''Unknown Document''
          else case find title_line (take 10 (lines ex)) of
                 Some line \<Rightarrow> line | None \<Rightarrow> text_of (hd hs))"
  by (cases hs) (auto simp: determine_document_title_def title_scan_find index_def
      split: option.splits)

declare re_sub.simps [simp del]

lemma spaces_match:
  "re_match spaces_pattern s =
     (if takeWhile is_space s = [] then None else Some [takeWhile is_space s])"
  by (simp add: re_match_def spaces_pattern_def rmatch_plus_last del: rmatch.simps)

lemma collapse_Nil: "re_sub spaces_pattern '' '' [] = []"
  by (simp add: re_sub.simps spaces_match)

lemma collapse_Cons:
  "re_sub spaces_pattern '' '' (c # cs) =
     (if is_space c then CHR '' '' # re_sub spaces_pattern '' '' (dropWhile is_space cs)
      else c # re_sub spaces_pattern '' '' cs)"
  by (simp add: re_sub.simps spaces_match drop_takeWhile_len)

lemma normal_Cons_nonspace: "\<not> is_space c \<Longrightarrow> normal (c # s) = normal s"
  by (cases s) simp_all

lemma is_space_blank [simp]: "is_space CHR '' ''"
  by (simp add: is_space_def code_def)

lemma normal_blank_Cons:
  "normal (CHR '' '' # s) = ((s = [] \<or> \<not> is_space (hd s)) \<and> normal s)"
  by (cases s) auto

lemma collapse_hd:
  "s \<noteq> [] \<Longrightarrow> \<not> is_space (hd s) \<Longrightarrow>
   re_sub spaces_pattern '' '' s \<noteq> [] \<and> hd (re_sub spaces_pattern '' '' s) = hd s"
  by (cases s) (simp_all add: collapse_Cons)

lemma normal_collapse: "normal (re_sub spaces_pattern '' '' s)"
proof (induction s rule: length_induct)
  case (1 s)
  show ?case
  proof (cases s)
    case Nil
    then show ?thesis by (simp add: collapse_Nil)
  next
    case (Cons c cs)
    show ?thesis
    proof (cases "is_space c")
      case True
      let ?r = "dropWhile is_space cs"
      have "length ?r < length s" using Cons
        by (simp add: length_dropWhile_le le_imp_less_Suc)
      then have n: "normal (re_sub spaces_pattern '' '' ?r)" using 1 by blast
      have h: "re_sub spaces_pattern '' '' ?r = [] \<or>
               \<not> is_space (hd (re_sub spaces_pattern '' '' ?r))"
      proof (cases "?r = []")
        case True
        show ?thesis unfolding True collapse_Nil by simp
      next
        case False
        then have "\<not> is_space (hd ?r)" by (rule hd_dropWhile)
        then show ?thesis using collapse_hd [OF False] by simp
      qed
      show ?thesis unfolding Cons collapse_Cons using True n h
        by (simp add: normal_blank_Cons)
    next
      case False
      have "length cs < length s" using Cons by simp
      then have "normal (re_sub spaces_pattern '' '' cs)" using 1 by blast
      then show ?thesis unfolding Cons collapse_Cons using False
        by (simp add: normal_Cons_nonspace)
    qed
  qed
qed

lemma collapse_normal: "normal s \<Longrightarrow> re_sub spaces_pattern '' '' s = s"
proof (induction s rule: normal.induct)
  case 1
  then show ?case by (simp add: collapse_Nil)
next
  case (2 c)
  then show ?case by (auto simp: collapse_Cons collapse_Nil split: if_splits)
next
  case (3 c d r)
  then show ?case by (auto simp: collapse_Cons split: if_splits)
qed

lemma normal_append: "normal (a @ b) \<Longrightarrow> normal a \<and> normal b"
proof (induction a rule: normal.induct)
  case 1
  then show ?case by simp
next
  case (2 c)
  then show ?case by (cases b) (auto split: if_splits)
next
  case (3 c d r)
  then show ?case by (auto split: if_splits)
qed

lemma strip_suffix:
  "dropWhile is_space s = strip s @ rev (takeWhile is_space (rev (dropWhile is_space s)))"
  unfolding strip_def by (metis rev_append rev_rev_ident takeWhile_dropWhile_id)

lemma strip_parts:
  "\<exists>a b. s = a @ strip s @ b \<and> list_all is_space a \<and> list_all is_space b"
proof -
  let ?z = "dropWhile is_space s"
  have 3: "list_all is_space (takeWhile is_space s)"
    by (simp add: list_all_iff) (metis set_takeWhileD)
  have 4: "list_all is_space (rev (takeWhile is_space (rev ?z)))"
    by (simp add: list_all_iff) (metis set_takeWhileD)
  have "s = takeWhile is_space s @ ?z" by simp
  then have "s = takeWhile is_space s @ strip s @ rev (takeWhile is_space (rev ?z))"
    using strip_suffix [of s] by metis
  then show ?thesis using 3 4 by blast
qed

lemma normal_strip: "normal s \<Longrightarrow> normal (strip s)"
proof -
  assume n: "normal s"
  from strip_parts [of s] obtain a b where "s = a @ strip s @ b" by blast
  then have "normal (a @ strip s @ b)" using n by simp
  then show ?thesis using normal_append by blast
qed

lemma strip_ends:
  "strip s = [] \<or> (\<not> is_space (hd (strip s)) \<and> \<not> is_space (last (strip s)))"
proof (cases "strip s = []")
  case True
  then show ?thesis by simp
next
  case False
  let ?z = "dropWhile is_space s"
  let ?w = "dropWhile is_space (rev ?z)"
  have w: "?w \<noteq> []" using False by (simp add: strip_def)
  then have hw: "\<not> is_space (hd ?w)" by (rule hd_dropWhile)
  have l: "last (strip s) = hd ?w" using w unfolding strip_def by (simp only: last_rev)
  have z: "?z \<noteq> []"
  proof
    assume e: "?z = []"
    have "?w = []" unfolding e by simp
    with w show False by simp
  qed
  then have hz: "\<not> is_space (hd ?z)" by (rule hd_dropWhile)
  have "hd ?z = hd (strip s)" using False strip_suffix [of s] by (metis hd_append2)
  then show ?thesis using hz hw l by simp
qed

lemma strip_id:
  assumes "s = [] \<or> (\<not> is_space (hd s) \<and> \<not> is_space (last s))"
  shows "strip s = s"
proof (cases s)
  case Nil
  then show ?thesis by (simp add: strip_def)
next
  case (Cons c cs)
  then have h: "\<not> is_space (hd s)" "\<not> is_space (last s)" using assms by auto
  have 1: "dropWhile is_space s = s" using h(1) Cons by simp
  have r: "rev s = last s # rev (butlast s)" using Cons by (simp add: rev_eq_Cons_iff)
  have "dropWhile is_space (last s # rev (butlast s)) = last s # rev (butlast s)"
    using h(2) by simp
  then have 2: "dropWhile is_space (rev s) = rev s"
    by (simp only: r [symmetric])
  show ?thesis by (simp add: strip_def 1 2)
qed

lemma strip_strip: "strip (strip s) = strip s"
  using strip_ends [of s] by (intro strip_id) auto

lemma set_strip: "set (strip s) \<subseteq> set s"
proof -
  from strip_parts [of s] obtain a b where "s = a @ strip s @ b" by blast
  then have "set s = set a \<union> set (strip s) \<union> set b" by (metis set_append Un_assoc)
  then show ?thesis by auto
qed

lemma set_collapse: "set (re_sub spaces_pattern '' '' s) \<subseteq> insert CHR '' '' (set s)"
proof (induction s rule: length_induct)
  case (1 s)
  show ?case
  proof (cases s)
    case Nil
    then show ?thesis by (simp add: collapse_Nil)
  next
    case (Cons c cs)
    show ?thesis
    proof (cases "is_space c")
      case True
      let ?r = "dropWhile is_space cs"
      have "length ?r < length s" using Cons
        by (simp add: length_dropWhile_le le_imp_less_Suc)
      then have "set (re_sub spaces_pattern '' '' ?r) \<subseteq> insert CHR '' '' (set ?r)"
        using 1 by blast
      moreover have "set ?r \<subseteq> set cs" by (auto dest: set_dropWhileD)
      ultimately show ?thesis unfolding Cons collapse_Cons using True by auto
    next
      case False
      have "length cs < length s" using Cons by simp
      then have "set (re_sub spaces_pattern '' '' cs) \<subseteq> insert CHR '' '' (set cs)"
        using 1 by blast
      then show ?thesis unfolding Cons collapse_Cons using False by auto
    qed
  qed
qed

lemma trailing_match_dot:
  "re_match trailing_pattern s = Some ms \<Longrightarrow> s \<noteq> [] \<and> hd s = CHR ''.''"
proof -
  assume m: "re_match trailing_pattern s = Some ms"
  then obtain x where x: "x \<in> set (choices Plus (chr CHR ''.'') s)"
    by (auto simp: re_match_def trailing_pattern_def simp del: choices.simps
        dest!: first_some_Some)
  obtain a b where ab: "x = (a, b)" by (cases x)
  from choices_sound [of a b Plus "chr CHR ''.''" s] x ab
  have "s = a @ b" "list_all (chr CHR ''.'') a" "a \<noteq> []" by auto
  then show ?thesis by (cases a) (auto simp: chr_def)
qed

lemma trailing_no_dot: "CHR ''.'' \<notin> set s \<Longrightarrow> re_sub trailing_pattern [] s = s"
proof (induction s)
  case Nil
  have "re_match trailing_pattern [] = None"
    using trailing_match_dot [of "[]"] by (cases "re_match trailing_pattern []") auto
  then show ?case by (simp add: re_sub.simps)
next
  case (Cons c cs)
  have "re_match trailing_pattern (c # cs) = None"
    using trailing_match_dot [of "c # cs"] Cons.prems
    by (cases "re_match trailing_pattern (c # cs)") auto
  then show ?case using Cons by (simp add: re_sub.simps)
qed

lemma clean_fixed:
  assumes "normal y" "y = [] \<or> (\<not> is_space (hd y) \<and> \<not> is_space (last y))"
    "re_sub trailing_pattern [] y = y"
  shows "clean_heading_text y = y"
  using assms by (simp add: clean_heading_text_def collapse_normal strip_id)

lemma clean_no_dot:
  assumes "CHR ''.'' \<notin> set x"
  shows "clean_heading_text (clean_heading_text x) = clean_heading_text x"
proof -
  let ?c = "re_sub spaces_pattern '' '' x"
  have d: "CHR ''.'' \<notin> set ?c" using assms set_collapse [of x] by auto
  then have e: "clean_heading_text x = strip ?c"
    by (simp add: clean_heading_text_def trailing_no_dot)
  have n: "normal (strip ?c)" using normal_collapse by (rule normal_strip)
  have "CHR ''.'' \<notin> set (strip ?c)" using d set_strip [of ?c] by auto
  then have t: "re_sub trailing_pattern [] (strip ?c) = strip ?c" by (rule trailing_no_dot)
  show ?thesis unfolding e using n strip_ends [of ?c] t by (rule clean_fixed)
qed

lemma takeWhile_all: "list_all p a \<Longrightarrow> takeWhile p (a @ b) = a @ takeWhile p b"
  by (induction a) simp_all

lemma dropWhile_all: "list_all p a \<Longrightarrow> dropWhile p (a @ b) = dropWhile p b"
  by (induction a) simp_all

lemma runs_nth:
  "k \<le> length (takeWhile p s) \<Longrightarrow> runs p s ! k = (take k s, drop k s)"
  by (simp add: runs_closed del: upt_Suc)

lemma runs_length: "length (runs p s) = Suc (length (takeWhile p s))"
  by (simp add: runs_closed del: upt_Suc)

lemma runs_complete: "list_all p a \<Longrightarrow> (a, b) \<in> set (runs p (a @ b))"
proof -
  assume a: "list_all p a"
  have le: "length a \<le> length (takeWhile p (a @ b))" by (simp add: takeWhile_all [OF a])
  then have "length a < length (runs p (a @ b))" by (simp add: runs_length)
  then have "runs p (a @ b) ! length a \<in> set (runs p (a @ b))" by (rule nth_mem)
  then show ?thesis using runs_nth [OF le] by simp
qed

lemma choices_complete:
  assumes "list_all p a" "quant_ok q (length a)"
  shows "(a, b) \<in> set (choices q p (a @ b))"
proof -
  have r: "(a, b) \<in> set (runs p (a @ b))" using assms(1) by (rule runs_complete)
  have le: "length a \<le> length (takeWhile p (a @ b))"
    by (simp add: takeWhile_all [OF assms(1)])
  have n: "runs p (a @ b) ! length a = (a, b)" using runs_nth [OF le] by simp
  have len: "length (runs p (a @ b)) = Suc (length (takeWhile p (a @ b)))"
    by (rule runs_length)
  show ?thesis
  proof (cases q)
    case One
    then show ?thesis using r assms(2) by simp
  next
    case Opt
    then have "length a < 2" using assms(2) by simp
    moreover have "length a < length (runs p (a @ b))" using le len by simp
    ultimately have "take 2 (runs p (a @ b)) ! length a = (a, b)" using n by simp
    moreover have "length a < length (take 2 (runs p (a @ b)))"
      using \<open>length a < 2\<close> \<open>length a < length (runs p (a @ b))\<close> by simp
    ultimately have "(a, b) \<in> set (take 2 (runs p (a @ b)))" by (metis nth_mem)
    then show ?thesis using Opt by simp
  next
    case Star
    then show ?thesis using r by simp
  next
    case Plus
    then have "a \<noteq> []" using assms(2) by auto
    then have "(a, b) \<in> set (tl (runs p (a @ b)))"
      using r by (cases "a @ b") (auto split: if_splits)
    then show ?thesis using Plus by simp
  next
    case LazyPlus
    then have "a \<noteq> []" using assms(2) by auto
    then have "(a, b) \<in> set (tl (runs p (a @ b)))"
      using r by (cases "a @ b") (auto split: if_splits)
    then show ?thesis using LazyPlus by simp
  next
    case (Exactly k)
    then show ?thesis using r assms(2) by simp
  qed
qed

lemma rmatch_complete:
  "list_all2 atom_ok as ms \<Longrightarrow> (d \<Longrightarrow> at_end r) \<Longrightarrow> rmatch as d (concat ms @ r) \<noteq> None"
proof (induction as ms rule: list_all2_induct)
  case Nil
  then show ?case by auto
next
  case (Cons a as m ms)
  have c: "(m, concat ms @ r) \<in> set (choices (fst (snd a)) (fst a) (m @ concat ms @ r))"
    using Cons.hyps(1) by (intro choices_complete) (simp_all add: atom_ok_def)
  have i: "rmatch as d (concat ms @ r) \<noteq> None" using Cons by simp
  have "\<exists>x \<in> set (choices (fst (snd a)) (fst a) (m @ concat ms @ r)).
      (case x of (x, y) \<Rightarrow> map_option ((#) x) (rmatch as d y)) \<noteq> None"
    by (rule bexI [OF _ c]) (simp add: i)
  then have "first_some (\<lambda>(x, y). map_option ((#) x) (rmatch as d y))
       (choices (fst (snd a)) (fst a) (m @ concat ms @ r)) \<noteq> None"
    by (simp add: first_some_None)
  then show ?case by (simp del: choices.simps)
qed

lemma dot_class [simp]: "\<not> is_space CHR ''.''" "\<not> is_decimal CHR ''.''"
  by (simp_all add: is_space_def is_decimal_def code_def)

lemma space_not_decimal: "is_space c \<Longrightarrow> \<not> is_decimal c"
  by (auto simp: is_space_def is_decimal_def Let_def)

lemma trailing_match_iff:
  "re_match trailing_pattern s \<noteq> None \<longleftrightarrow>
   (\<exists>dots w d w'. s = dots @ w @ d @ w' \<and> dots \<noteq> [] \<and> list_all (chr CHR ''.'') dots \<and>
      list_all is_space w \<and> list_all is_decimal d \<and> list_all is_space w')"
proof
  assume "re_match trailing_pattern s \<noteq> None"
  then obtain ms where m: "rmatch (fst trailing_pattern) (snd trailing_pattern) s = Some ms"
    by (auto simp: re_match_def)
  from rmatch_sound [OF m] obtain r where
    l: "list_all2 atom_ok (fst trailing_pattern) ms" and
    r: "s = concat ms @ r" "snd trailing_pattern \<longrightarrow> at_end r" by blast
  from l obtain dots w d w' where ms: "ms = [dots, w, d, w']"
    and a: "atom_ok (chr CHR ''.'', Plus, 0) dots" "atom_ok (is_space, Star, 0) w"
      "atom_ok (is_decimal, Star, 0) d" "atom_ok (is_space, Star, 0) w'"
    by (auto simp: trailing_pattern_def list_all2_Cons1)
  have e: "at_end r" using r(2) by (simp add: trailing_pattern_def)
  then have sr: "list_all is_space r"
    by (auto simp: at_end_def newline_def is_space_def code_def)
  have "s = dots @ w @ d @ (w' @ r)" using r(1) ms by simp
  moreover have "list_all is_space (w' @ r)" using a(4) sr by (simp add: atom_ok_def)
  ultimately show "\<exists>dots w d w'. s = dots @ w @ d @ w' \<and> dots \<noteq> [] \<and>
      list_all (chr CHR ''.'') dots \<and> list_all is_space w \<and> list_all is_decimal d \<and>
      list_all is_space w'"
    using a(1-3) by (intro exI [of _ dots] exI [of _ w] exI [of _ d] exI [of _ "w' @ r"])
      (auto simp: atom_ok_def)
next
  assume "\<exists>dots w d w'. s = dots @ w @ d @ w' \<and> dots \<noteq> [] \<and> list_all (chr CHR ''.'') dots \<and>
      list_all is_space w \<and> list_all is_decimal d \<and> list_all is_space w'"
  then obtain dots w d w' where s: "s = dots @ w @ d @ w'" and
    h: "dots \<noteq> []" "list_all (chr CHR ''.'') dots" "list_all is_space w"
       "list_all is_decimal d" "list_all is_space w'" by blast
  have l: "list_all2 atom_ok (fst trailing_pattern) [dots, w, d, w']"
    using h by (cases dots) (simp_all add: trailing_pattern_def atom_ok_def)
  have "rmatch (fst trailing_pattern) (snd trailing_pattern) (concat [dots, w, d, w'] @ []) \<noteq> None"
    using l by (rule rmatch_complete) (simp add: at_end_def)
  then show "re_match trailing_pattern s \<noteq> None" using s by (simp add: re_match_def)
qed

lemma trailing_dots_rev:
  assumes "dots \<noteq> []" "list_all (chr CHR ''.'') dots" "list_all is_space w"
    "list_all is_decimal d" "list_all is_space w'"
  shows "has_trailing_dots (pre @ dots @ w @ d @ w')"
proof -
  let ?E = "rev dots @ rev pre"
  have hE: "?E \<noteq> []" "hd ?E = CHR ''.''"
    using assms(1,2) by (cases "rev dots"; auto simp: chr_def list_all_iff)+
  have dE: "dropWhile is_space ?E = ?E" "dropWhile is_decimal ?E = ?E"
    using hE by (cases ?E; simp)+
  have r: "rev (pre @ dots @ w @ d @ w') = rev w' @ rev d @ rev w @ ?E" by simp
  have 1: "dropWhile is_space (rev w' @ rev d @ rev w @ ?E) = dropWhile is_space (rev d @ rev w @ ?E)"
    using assms(5) by (intro dropWhile_all) (simp add: list_all_iff)
  have sw: "list_all is_space (rev w)" using assms(3) by (simp add: list_all_iff)
  have dd: "list_all is_decimal (rev d)" using assms(4) by (simp add: list_all_iff)
  have cw: "dropWhile is_space (rev w @ ?E) = ?E"
    using dropWhile_all [OF sw, of ?E] dE by simp
  have "dropWhile is_space (dropWhile is_decimal (dropWhile is_space (rev d @ rev w @ ?E))) = ?E"
  proof (cases "rev d")
    case Nil
    then show ?thesis using cw dE by simp
  next
    case (Cons c cs)
    then have "is_decimal c" using dd by simp
    then have "\<not> is_space c" using space_not_decimal by blast
    then have a: "dropWhile is_space (rev d @ rev w @ ?E) = rev d @ rev w @ ?E"
      using Cons by simp
    have b: "dropWhile is_decimal (rev d @ rev w @ ?E) = dropWhile is_decimal (rev w @ ?E)"
      using dd by (rule dropWhile_all)
    have c: "dropWhile is_decimal (rev w @ ?E) = rev w @ ?E"
    proof (cases "rev w")
      case Nil
      then show ?thesis using dE by simp
    next
      case (Cons x xs)
      then have "is_space x" using sw by simp
      then have "\<not> is_decimal x" by (rule space_not_decimal)
      then show ?thesis using Cons by simp
    qed
    show ?thesis unfolding a b c cw ..
  qed
  then show ?thesis unfolding has_trailing_dots_def Let_def r 1 using hE by simp
qed

lemma trailing_dots_split:
  assumes "has_trailing_dots s"
  shows "\<exists>pre w d w'. s = pre @ ''.'' @ w @ d @ w' \<and> list_all is_space w \<and>
           list_all is_decimal d \<and> list_all is_space w'"
proof -
  let ?r = "dropWhile is_space (rev s)"
  let ?r1 = "dropWhile is_decimal ?r"
  let ?r2 = "dropWhile is_space ?r1"
  from assms obtain rest where r2: "?r2 = CHR ''.'' # rest"
    unfolding has_trailing_dots_def Let_def by (cases ?r2) auto
  have "rev s = takeWhile is_space (rev s) @ ?r" by simp
  also have "?r = takeWhile is_decimal ?r @ ?r1" by simp
  also have "?r1 = takeWhile is_space ?r1 @ ?r2" by simp
  finally have "rev s = takeWhile is_space (rev s) @ takeWhile is_decimal ?r @
      takeWhile is_space ?r1 @ CHR ''.'' # rest" using r2 by simp
  then have "rev (rev s) = rev (takeWhile is_space (rev s) @ takeWhile is_decimal ?r @
      takeWhile is_space ?r1 @ CHR ''.'' # rest)" by (rule arg_cong)
  then have "s = rev rest @ ''.'' @ rev (takeWhile is_space ?r1) @
      rev (takeWhile is_decimal ?r) @ rev (takeWhile is_space (rev s))" by simp
  moreover have "list_all is_space (rev (takeWhile is_space ?r1))"
    by (simp add: list_all_iff) (metis set_takeWhileD)
  moreover have "list_all is_decimal (rev (takeWhile is_decimal ?r))"
    by (simp add: list_all_iff) (metis set_takeWhileD)
  moreover have "list_all is_space (rev (takeWhile is_space (rev s)))"
    by (simp add: list_all_iff) (metis set_takeWhileD)
  ultimately show ?thesis by blast
qed

lemma trailing_somewhere:
  "(\<exists>k \<le> length s. re_match trailing_pattern (drop k s) \<noteq> None) \<longleftrightarrow> has_trailing_dots s"
proof
  assume "\<exists>k \<le> length s. re_match trailing_pattern (drop k s) \<noteq> None"
  then obtain k where k: "re_match trailing_pattern (drop k s) \<noteq> None" by blast
  then obtain dots w d w' where
    e: "drop k s = dots @ w @ d @ w'" and
    h: "dots \<noteq> []" "list_all (chr CHR ''.'') dots" "list_all is_space w"
       "list_all is_decimal d" "list_all is_space w'"
    unfolding trailing_match_iff by blast
  have "s = take k s @ dots @ w @ d @ w'" using e by (metis append_take_drop_id)
  then show "has_trailing_dots s" using trailing_dots_rev [OF h, of "take k s"] by simp
next
  assume "has_trailing_dots s"
  from trailing_dots_split [OF this] obtain pre w d w' where
    s: "s = pre @ ''.'' @ w @ d @ w'" and
    h: "list_all is_space w" "list_all is_decimal d" "list_all is_space w'" by blast
  have "re_match trailing_pattern (''.'' @ w @ d @ w') \<noteq> None"
    unfolding trailing_match_iff using h
    by (intro exI [of _ "''.''"] exI [of _ w] exI [of _ d] exI [of _ w']) (simp add: chr_def)
  moreover have "drop (length pre) s = ''.'' @ w @ d @ w'" using s by simp
  moreover have "length pre \<le> length s" using s by simp
  ultimately show "\<exists>k \<le> length s. re_match trailing_pattern (drop k s) \<noteq> None" by metis
qed

lemma re_sub_none:
  "(\<forall>k \<le> length s. re_match pat (drop k s) = None) \<Longrightarrow> re_sub pat repl s = s"
proof (induction s)
  case Nil
  then show ?case by (simp add: re_sub.simps)
next
  case (Cons c cs)
  have 0: "re_match pat (c # cs) = None" using Cons.prems by (metis drop0 le0)
  have "\<forall>k \<le> length cs. re_match pat (drop k cs) = None"
  proof (intro allI impI)
    fix k assume "k \<le> length cs"
    then have "re_match pat (drop (Suc k) (c # cs)) = None"
      using Cons.prems by (metis Suc_le_mono length_Cons)
    then show "re_match pat (drop k cs) = None" by simp
  qed
  then show ?case using Cons.IH 0 by (simp add: re_sub.simps)
qed

lemma trailing_concat:
  assumes "re_match trailing_pattern s = Some m"
  shows "concat m \<noteq> [] \<and> (\<exists>r. s = concat m @ r \<and> at_end r)"
proof -
  have m: "rmatch (fst trailing_pattern) (snd trailing_pattern) s = Some m"
    using assms by (simp add: re_match_def)
  from rmatch_sound [OF m] obtain r where
    l: "list_all2 atom_ok (fst trailing_pattern) m" and
    r: "s = concat m @ r" "snd trailing_pattern \<longrightarrow> at_end r" by blast
  from l obtain dots w d w' where ms: "m = [dots, w, d, w']"
    and a: "atom_ok (chr CHR ''.'', Plus, 0) dots"
    by (auto simp: trailing_pattern_def list_all2_Cons1)
  have "dots \<noteq> []" using a by (auto simp: atom_ok_def)
  then have "concat m \<noteq> []" using ms by simp
  moreover have "at_end r" using r(2) by (simp add: trailing_pattern_def)
  ultimately show ?thesis using r(1) by blast
qed

lemma trailing_Nil: "re_match trailing_pattern [] = None"
  using trailing_match_dot [of "[]"] by (cases "re_match trailing_pattern []") auto

lemma re_sub_trailing_le: "length (re_sub trailing_pattern [] s) \<le> length s"
proof (induction s rule: length_induct)
  case (1 s)
  show ?case
  proof (cases s)
    case Nil
    then show ?thesis by (simp add: re_sub.simps trailing_Nil)
  next
    case (Cons c cs)
    have ih: "\<And>t. length t \<le> length cs \<Longrightarrow> length (re_sub trailing_pattern [] t) \<le> length t"
      using 1 Cons by simp
    show ?thesis
    proof (cases "re_match trailing_pattern (c # cs)")
      case None
      then show ?thesis using Cons ih [of cs] by (simp add: re_sub.simps)
    next
      case (Some m)
      let ?t = "drop (length (concat m) - 1) cs"
      have "length (re_sub trailing_pattern [] ?t) \<le> length ?t" by (rule ih) simp
      then have "length (re_sub trailing_pattern [] ?t) \<le> length cs" by simp
      then show ?thesis using Cons Some ih [of cs]
        by (simp add: re_sub.simps del: concat_eq_Nil_conv)
    qed
  qed
qed

lemma re_sub_trailing_lt:
  "\<exists>k \<le> length s. re_match trailing_pattern (drop k s) \<noteq> None \<Longrightarrow>
   length (re_sub trailing_pattern [] s) < length s"
proof (induction s)
  case Nil
  then show ?case by (simp add: trailing_Nil)
next
  case (Cons c cs)
  show ?case
  proof (cases "re_match trailing_pattern (c # cs)")
    case (Some m)
    let ?t = "drop (length (concat m) - 1) cs"
    have n: "concat m \<noteq> []" using trailing_concat [OF Some] by blast
    have "length (re_sub trailing_pattern [] ?t) \<le> length ?t" by (rule re_sub_trailing_le)
    then have "length (re_sub trailing_pattern [] ?t) \<le> length cs" by simp
    then show ?thesis using Some n by (simp add: re_sub.simps del: concat_eq_Nil_conv)
  next
    case None
    from Cons.prems obtain k where
      k: "k \<le> length (c # cs)" "re_match trailing_pattern (drop k (c # cs)) \<noteq> None" by blast
    then have "k \<noteq> 0" using None by (cases k) auto
    then obtain j where j: "k = Suc j" by (cases k) auto
    then have "j \<le> length cs" "re_match trailing_pattern (drop j cs) \<noteq> None" using k by auto
    then have "length (re_sub trailing_pattern [] cs) < length cs" using Cons.IH by blast
    then show ?thesis using None by (simp add: re_sub.simps)
  qed
qed

lemma trailing_prefix:
  "newline \<notin> set z \<Longrightarrow> \<exists>b. z = re_sub trailing_pattern [] z @ b"
proof (induction z)
  case Nil
  then show ?case by (simp add: re_sub.simps trailing_Nil)
next
  case (Cons c cs)
  show ?case
  proof (cases "re_match trailing_pattern (c # cs)")
    case None
    then show ?thesis using Cons by (auto simp: re_sub.simps)
  next
    case (Some m)
    from trailing_concat [OF Some] obtain r where
      n: "concat m \<noteq> []" and r: "c # cs = concat m @ r" "at_end r" by blast
    have "r = []"
    proof (rule ccontr)
      assume "r \<noteq> []"
      then have "r = [newline]" using r(2) by (simp add: at_end_def)
      then have "newline \<in> set (c # cs)" using r(1) by (metis in_set_conv_decomp)
      then show False using Cons.prems by simp
    qed
    then have "length (concat m) = Suc (length cs)" using r(1) by (metis append_Nil2 length_Cons)
    then have "re_sub trailing_pattern [] (c # cs) = []"
      using Some n by (simp add: re_sub.simps trailing_Nil del: concat_eq_Nil_conv)
    then show ?thesis by simp
  qed
qed

lemma normal_spaces: "normal z \<Longrightarrow> c \<in> set z \<Longrightarrow> is_space c \<Longrightarrow> c = CHR '' ''"
  by (induction z rule: normal.induct) (auto split: if_splits)

lemma normal_no_newline: "normal z \<Longrightarrow> newline \<notin> set z"
proof
  assume "normal z" "newline \<in> set z"
  moreover have "is_space newline" by (simp add: is_space_def newline_def code_def)
  ultimately have "newline = CHR '' ''" by (rule normal_spaces)
  then show False by (simp add: newline_def)
qed

lemma length_strip_le: "length (strip s) \<le> length s"
proof -
  from strip_parts [of s] obtain a b where "s = a @ strip s @ b" by blast
  then have "length s = length a + length (strip s) + length b"
    by (metis length_append add.assoc)
  then show ?thesis by simp
qed

lemma normal_clean: "normal (clean_heading_text x)"
proof -
  let ?c = "re_sub spaces_pattern '' '' x"
  have n: "normal ?c" by (rule normal_collapse)
  then have "newline \<notin> set ?c" by (rule normal_no_newline)
  from trailing_prefix [OF this] obtain b where "?c = re_sub trailing_pattern [] ?c @ b" by blast
  then have "normal (re_sub trailing_pattern [] ?c @ b)" using n by simp
  then have "normal (re_sub trailing_pattern [] ?c)" using normal_append by blast
  then show ?thesis unfolding clean_heading_text_def by (rule normal_strip)
qed

lemma clean_again:
  "clean_heading_text (clean_heading_text x) =
     strip (re_sub trailing_pattern [] (clean_heading_text x))"
  using collapse_normal [OF normal_clean [of x]]
  by (simp add: clean_heading_text_def [of "clean_heading_text x"])

lemma clean_ends:
  "clean_heading_text x = [] \<or>
   (\<not> is_space (hd (clean_heading_text x)) \<and> \<not> is_space (last (clean_heading_text x)))"
  unfolding clean_heading_text_def by (rule strip_ends)














lemma parse_lines: "parse_page_info ex0 = Inr ex \<Longrightarrow> lines ex = lines ex0"
  by (auto simp: parse_page_info_def bind_res_def split: sum.splits)

lemma pipeline_returns:
  assumes "extract_headings_from_pdf_text t = Inr r"
  shows "\<exists>ex hs. parse_page_info (init t) = Inr ex \<and> lines ex = lines (init t) \<and>
     candidates_of t = Inr hs \<and>
     outline r = sort_key (source_position hs) (map heading_of (kept_candidates hs)) \<and>
     determine_document_title ex (outline r) = Inr (title r)"
proof -
  have e: "bind_res (parse_page_info (init t)) (\<lambda>ex.
     bind_res (detect ex) (\<lambda>hs.
     bind_res (clean_and_process_headings hs) (\<lambda>cleaned.
     bind_res (determine_document_title ex cleaned) (\<lambda>t.
     Inr \<lparr>title = t, outline = cleaned\<rparr>)))) = Inr r"
    using assms by (simp add: extract_headings_from_pdf_text_def extract_headings_unfold)
  obtain ex where p: "parse_page_info (init t) = Inr ex"
    using e by (cases "parse_page_info (init t)") simp_all
  obtain hs where d: "detect ex = Inr hs"
    using e p by (cases "detect ex") simp_all
  let ?out = "sort_key (source_position hs) (map heading_of (kept_candidates hs))"
  obtain tt where tt: "determine_document_title ex ?out = Inr tt"
    using e p d by (cases "determine_document_title ex ?out") (simp_all add: clean_and_process_eq)
  have r: "r = \<lparr>title = tt, outline = ?out\<rparr>"
    using e p d tt by (simp add: clean_and_process_eq)
  have o: "outline r = ?out" and t': "title r = tt" by (simp_all add: r)
  have l: "lines ex = lines (init t)" using p by (rule parse_lines)
  have c: "candidates_of t = Inr hs" by (simp add: candidates_of_def p d)
  have dt: "determine_document_title ex (outline r) = Inr (title r)"
    unfolding o t' by (rule tt)
  show ?thesis
    apply (rule exI [of _ ex])
    apply (rule exI [of _ hs])
    using p l c o dt apply (intro conjI)
        apply assumption+
    done
qed














section \<open>The claims\<close>




text \<open>
  C2. For every input text on which the entry point returns, no two headings of the final
  outline have the same deduplication key (the text in lower case and trimmed, and the
  page): the keys of the outline are the keys of the candidates, each once, and the heading
  kept for a key is the first candidate with that key in the order of confidence, then
  position.
\<close>

theorem outline_keys_unique:
  assumes "extract_headings_from_pdf_text t = Inr r"
  shows "\<exists>hs. candidates_of t = Inr hs \<and>
     distinct (map dedup_key (outline r)) \<and>
     dedup_key ` set (outline r) = dedup_key ` set hs \<and>
     (\<forall>h \<in> set (outline r). \<exists>c. source_of hs h = Some c \<and> heading_of c = h)"
proof -
  from pipeline_returns [OF assms] obtain hs where
    c: "candidates_of t = Inr hs" and
    o: "outline r = sort_key (source_position hs) (map heading_of (kept_candidates hs))"
    by blast
  let ?out = "sort_key (source_position hs) (map heading_of (kept_candidates hs))"
  have s: "\<forall>h \<in> set ?out. \<exists>c. source_of hs h = Some c \<and> heading_of c = h"
    using outline_sources [of _ hs] by blast
  show ?thesis
    apply (rule exI [of _ hs])
    apply (simp only: o)
    using c outline_distinct [of hs] outline_keys [of hs] s apply (intro conjI)
       apply assumption+
    done
qed

theorem outline_keys_unique_witness:
  "\<exists>hs r. candidates_of sample_text = Inr hs \<and>
     extract_headings_from_pdf_text sample_text = Inr r \<and>
     outline r = [\<lparr>level = H1, text_of = ''Abstract'', page = 1\<rparr>,
                  \<lparr>level = H1, text_of = ''1. Goals'', page = 1\<rparr>] \<and>
     distinct (map dedup_key (outline r)) \<and>
     (\<forall>h \<in> set (outline r). \<exists>c. source_of hs h = Some c \<and> heading_of c = h)"
proof -
  let ?r = "\<lparr>title = ''Abstract'',
          outline = [\<lparr>level = H1, text_of = ''Abstract'', page = 1\<rparr>,
                     \<lparr>level = H1, text_of = ''1. Goals'', page = 1\<rparr>]\<rparr>"
  from outline_keys_unique [OF sample_run] obtain hs where
    h: "candidates_of sample_text = Inr hs"
    "distinct (map dedup_key (outline ?r))"
    "\<forall>h \<in> set (outline ?r). \<exists>c. source_of hs h = Some c \<and> heading_of c = h"
    by blast
  have o: "outline ?r = [\<lparr>level = H1, text_of = ''Abstract'', page = 1\<rparr>,
                  \<lparr>level = H1, text_of = ''1. Goals'', page = 1\<rparr>]"
    by simp
  show ?thesis
    apply (rule exI [of _ hs])
    apply (rule exI [of _ ?r])
    using h sample_run o apply (intro conjI)
        apply assumption+
    done
qed

text \<open>
  C3. For every input text on which the entry point returns, the final outline is sorted
  by the position of the candidate that produced each heading, not by confidence: every
  heading of the outline is the projection of its source candidate, and the source
  positions along the outline never decrease.
\<close>

theorem outline_in_document_order:
  assumes "extract_headings_from_pdf_text t = Inr r"
  shows "\<exists>hs. candidates_of t = Inr hs \<and>
     sorted (map (source_position hs) (outline r)) \<and>
     (\<forall>h \<in> set (outline r). \<exists>c \<in> set hs. source_of hs h = Some c \<and> heading_of c = h \<and>
        source_position hs h = position c)"
proof -
  from pipeline_returns [OF assms] obtain hs where
    c: "candidates_of t = Inr hs" and
    o: "outline r = sort_key (source_position hs) (map heading_of (kept_candidates hs))"
    by blast
  let ?out = "sort_key (source_position hs) (map heading_of (kept_candidates hs))"
  have s: "\<forall>h \<in> set ?out. \<exists>c \<in> set hs. source_of hs h = Some c \<and> heading_of c = h \<and>
      source_position hs h = position c"
  proof
    fix h assume "h \<in> set ?out"
    from outline_sources [OF this] obtain c where
      "source_of hs h = Some c" "heading_of c = h" "c \<in> set hs" by blast
    then show "\<exists>c \<in> set hs. source_of hs h = Some c \<and> heading_of c = h \<and>
      source_position hs h = position c" by (auto simp: source_position_def)
  qed
  have so: "sorted (map (source_position hs) ?out)" by (rule sorted_sort_key)
  show ?thesis
    apply (rule exI [of _ hs])
    apply (simp only: o)
    using c so s apply (intro conjI)
      apply assumption+
    done
qed

theorem outline_in_document_order_witness:
  "\<exists>hs r. candidates_of sample_text = Inr hs \<and>
     extract_headings_from_pdf_text sample_text = Inr r \<and>
     outline r = [\<lparr>level = H1, text_of = ''Abstract'', page = 1\<rparr>,
                  \<lparr>level = H1, text_of = ''1. Goals'', page = 1\<rparr>] \<and>
     sorted (map (source_position hs) (outline r)) \<and>
     (\<forall>h \<in> set (outline r). \<exists>c \<in> set hs. source_of hs h = Some c \<and> heading_of c = h \<and>
        source_position hs h = position c)"
proof -
  let ?r = "\<lparr>title = ''Abstract'',
          outline = [\<lparr>level = H1, text_of = ''Abstract'', page = 1\<rparr>,
                     \<lparr>level = H1, text_of = ''1. Goals'', page = 1\<rparr>]\<rparr>"
  from outline_in_document_order [OF sample_run] obtain hs where
    h: "candidates_of sample_text = Inr hs"
    "sorted (map (source_position hs) (outline ?r))"
    "\<forall>h \<in> set (outline ?r). \<exists>c \<in> set hs. source_of hs h = Some c \<and> heading_of c = h \<and>
        source_position hs h = position c"
    by blast
  have o: "outline ?r = [\<lparr>level = H1, text_of = ''Abstract'', page = 1\<rparr>,
                  \<lparr>level = H1, text_of = ''1. Goals'', page = 1\<rparr>]"
    by simp
  show ?thesis
    apply (rule exI [of _ hs])
    apply (rule exI [of _ ?r])
    using h sample_run o apply (intro conjI)
        apply assumption+
    done
qed

text \<open>
  C4. The claim says that the title is the first qualifying line among the first 10 lines
  also when the outline is empty. The source returns \<^verbatim>\<open>Unknown Document\<close> first
  whenever the outline is empty: the text below has a qualifying line, no heading, and
  the title \<^verbatim>\<open>Unknown Document\<close>.
\<close>

theorem title_counterexample:
  "extract_headings_from_pdf_text ''This is a document title'' =
     Inr \<lparr>title = ''Unknown Document'', outline = []\<rparr> \<and>
   title_scan (take 10 (lines (init ''This is a document title''))) =
     Some ''This is a document title''"
  by code_simp

text \<open>
  C4, amended. In the result the entry point returns, if the outline is empty the title is
  \<^verbatim>\<open>Unknown Document\<close>, whatever the lines are. Otherwise the title is the first of the
  first 10 lines that is longer than 10 characters, has no numbered prefix, is not noise
  and does not begin with \<^verbatim>\<open>page\<close> and a space (in any case); if there is no such line, it
  is the text of the first heading.
\<close>

theorem title_resolution:
  assumes "extract_headings_from_pdf_text t = Inr r"
  shows "title r =
       (if outline r = [] then ''Unknown Document''
        else case find title_line (take 10 (lines (init t))) of
               Some line \<Rightarrow> line | None \<Rightarrow> text_of (hd (outline r)))"
proof -
  from pipeline_returns [OF assms] obtain ex where
    l: "lines ex = lines (init t)" and
    d: "determine_document_title ex (outline r) = Inr (title r)"
    by blast
  show ?thesis using d unfolding determine_document_title_eq l by simp
qed

theorem title_resolution_witness:
  "\<exists>r. extract_headings_from_pdf_text sample_text = Inr r \<and> outline r \<noteq> [] \<and>
     find title_line (take 10 (lines (init sample_text))) = None \<and>
     title r = text_of (hd (outline r))"
proof -
  let ?r = "\<lparr>title = ''Abstract'',
          outline = [\<lparr>level = H1, text_of = ''Abstract'', page = 1\<rparr>,
                     \<lparr>level = H1, text_of = ''1. Goals'', page = 1\<rparr>]\<rparr>"
  have f: "find title_line (take 10 (lines (init sample_text))) = None" by code_simp
  have n: "outline ?r \<noteq> []" by simp
  have "title ?r = text_of (hd (outline ?r))"
    using title_resolution [OF sample_run] f n by simp
  then show ?thesis using sample_run f n by blast
qed

text \<open>
  C6. The claim counts a missing previous line and a missing next line as one point each,
  so that a candidate on the only line of a document would score 2 and be accepted. The
  source looks at a neighbour only when it exists: the single line below matches the
  numbered pattern, passes the tests on its text, scores 0 and is rejected.
\<close>

theorem single_line_counterexample:
  "is_valid_heading (init ''1. Introduction'') ''Introduction'' 0 = Inr False \<and>
   plausible ''Introduction'' \<and>
   re_match main_pattern ''1. Introduction'' = Some [''1'', ''.'', '' '', ''Introduction''] \<and>
   extract_headings_from_pdf_text ''1. Introduction'' =
     Inr \<lparr>title = ''Unknown Document'', outline = []\<rparr>"
  by code_simp

text \<open>
  C6, amended. For a text that passes the tests on length, digits and special characters,
  the context score gains 1 when a previous line exists and is shorter than 20 characters
  (or empty), and 1 when a next line exists and is empty or begins with an upper-case
  letter; a missing neighbour adds nothing. The candidate is accepted if and only if the
  score is at least 1; on the only line of a document the score is 0 and the candidate is
  rejected.
\<close>

theorem context_score_rule:
  assumes "i < length (lines ex)"
  shows "is_valid_heading ex t i = Inr (plausible t \<and> 1 \<le> context_score (lines ex) i) \<and>
    (length (lines ex) = 1 \<longrightarrow>
       context_score (lines ex) i = 0 \<and> is_valid_heading ex t i = Inr False)"
proof -
  have a: "is_valid_heading ex t i = Inr (plausible t \<and> 1 \<le> context_score (lines ex) i)"
    using assms by (rule is_valid_heading_eq)
  have "length (lines ex) = 1 \<longrightarrow> context_score (lines ex) i = 0"
    using assms by (auto simp: context_score_def)
  then show ?thesis using a by simp
qed

theorem context_score_rule_witness:
  "(1::nat) < length (lines (init sample_text)) \<and>
   is_valid_heading (init sample_text) ''Abstract'' 1 = Inr True \<and>
   context_score (lines (init sample_text)) 1 = 1"
proof -
  have l: "(1::nat) < length (lines (init sample_text))" by code_simp
  have c: "context_score (lines (init sample_text)) 1 = 1" by code_simp
  have p: "plausible ''Abstract''" by code_simp
  show ?thesis using context_score_rule [OF l, of "''Abstract''"] l c p by simp
qed




text \<open>
  C5. The claim says that cleaning is idempotent. Cleaning removes one trailing run of
  dots with its number, and what is left can end with another: the text below is cleaned
  to \<^verbatim>\<open>a.1\<close>, and that to \<^verbatim>\<open>a\<close>.
\<close>

theorem clean_counterexample:
  "clean_heading_text ''a.1.2'' = ''a.1'' \<and>
   clean_heading_text (clean_heading_text ''a.1.2'') = ''a''"
  by code_simp

text \<open>
  C5, amended. Cleaning a cleaned text changes it exactly when the cleaned text still ends
  with dots optionally followed by a number: \<open>clean (clean x) = clean x\<close> holds if and only
  if \<open>clean x\<close> has no such ending. In particular cleaning is idempotent on every text
  without a dot.
\<close>

theorem clean_idempotent_iff:
  "(clean_heading_text (clean_heading_text x) = clean_heading_text x \<longleftrightarrow>
      \<not> has_trailing_dots (clean_heading_text x)) \<and>
   (CHR ''.'' \<notin> set x \<longrightarrow>
      clean_heading_text (clean_heading_text x) = clean_heading_text x)"
proof
  let ?y = "clean_heading_text x"
  show "clean_heading_text ?y = ?y \<longleftrightarrow> \<not> has_trailing_dots ?y"
  proof (cases "has_trailing_dots ?y")
    case True
    then have "\<exists>k \<le> length ?y. re_match trailing_pattern (drop k ?y) \<noteq> None"
      by (simp only: trailing_somewhere)
    then have "length (re_sub trailing_pattern [] ?y) < length ?y" by (rule re_sub_trailing_lt)
    moreover have "length (strip (re_sub trailing_pattern [] ?y)) \<le>
        length (re_sub trailing_pattern [] ?y)" by (rule length_strip_le)
    ultimately have "length (clean_heading_text ?y) < length ?y" by (simp add: clean_again)
    then have "clean_heading_text ?y \<noteq> ?y" by auto
    then show ?thesis using True by simp
  next
    case False
    then have "\<not> (\<exists>k \<le> length ?y. re_match trailing_pattern (drop k ?y) \<noteq> None)"
      by (simp only: trailing_somewhere not_False_eq_True)
    then have "\<forall>k \<le> length ?y. re_match trailing_pattern (drop k ?y) = None" by blast
    then have "re_sub trailing_pattern [] ?y = ?y" by (rule re_sub_none)
    then have "clean_heading_text ?y = strip ?y" by (simp add: clean_again)
    also have "strip ?y = ?y" using clean_ends [of x] by (rule strip_id)
    finally show ?thesis using False by simp
  qed
  show "CHR ''.'' \<notin> set x \<longrightarrow> clean_heading_text (clean_heading_text x) = clean_heading_text x"
    using clean_no_dot by blast
qed

theorem clean_idempotent_iff_witness:
  "CHR ''.'' \<notin> set ''Scope   of  work '' \<and>
   clean_heading_text ''Scope   of  work '' = ''Scope of work'' \<and>
   clean_heading_text (clean_heading_text ''Scope   of  work '') =
     clean_heading_text ''Scope   of  work '' \<and>
   \<not> has_trailing_dots (clean_heading_text ''Scope   of  work '')"
proof -
  have 1: "CHR ''.'' \<notin> set ''Scope   of  work ''" by simp
  have 2: "clean_heading_text ''Scope   of  work '' = ''Scope of work''" by code_simp
  let ?x = "''Scope   of  work ''"
  from clean_idempotent_iff [of ?x] have
    i: "(clean_heading_text (clean_heading_text ?x) = clean_heading_text ?x) =
        (\<not> has_trailing_dots (clean_heading_text ?x))" and
    d: "CHR ''.'' \<notin> set ?x \<longrightarrow>
        clean_heading_text (clean_heading_text ?x) = clean_heading_text ?x" by blast+
  have c: "clean_heading_text (clean_heading_text ?x) = clean_heading_text ?x"
    using d 1 by blast
  have h: "\<not> has_trailing_dots (clean_heading_text ?x)" using i c by blast
  show ?thesis using 1 2 c h by blast
qed




end
